theory Spec2Isabelle
  imports Main
begin

section \<open>Strings\<close>

text \<open>
  A JavaScript string is a sequence of UTF-16 code units. It is modelled as a
  \<^typ>\<open>string\<close> whose characters are the code units below 256 (the Latin-1 range);
  the character classes below are the restrictions of the ECMAScript classes to
  that range.
\<close>

definition nl :: char where
  "nl = CHR 0x0A"

definition cr :: char where
  "cr = CHR 0x0D"

text \<open>White space and line terminators: what \<^verbatim>\<open>trim()\<close> removes and \<^verbatim>\<open>\s\<close> matches.\<close>

definition is_ws :: "char \<Rightarrow> bool" where
  "is_ws c \<longleftrightarrow>
     c = CHR 0x09 \<or> c = CHR 0x0A \<or> c = CHR 0x0B \<or> c = CHR 0x0C \<or> c = CHR 0x0D
     \<or> c = CHR 0x20 \<or> c = CHR 0xA0"

text \<open>The class \<^verbatim>\<open>\w\<close>: ASCII letters, digits and the underscore.\<close>

definition is_word :: "char \<Rightarrow> bool" where
  "is_word c \<longleftrightarrow>
     (let n = (of_char c :: nat) in
        (48 \<le> n \<and> n \<le> 57) \<or> (65 \<le> n \<and> n \<le> 90) \<or> n = 95 \<or> (97 \<le> n \<and> n \<le> 122))"

text \<open>The class matched by \<^verbatim>\<open>.\<close>: everything but a line terminator.\<close>

definition is_dot :: "char \<Rightarrow> bool" where
  "is_dot c \<longleftrightarrow> c \<noteq> nl \<and> c \<noteq> cr"

definition lower_char :: "char \<Rightarrow> char" where
  "lower_char c =
     (let n = (of_char c :: nat) in
        if (65 \<le> n \<and> n \<le> 90) \<or> (192 \<le> n \<and> n \<le> 214) \<or> (216 \<le> n \<and> n \<le> 222)
        then char_of (n + 32) else c)"

definition toLowerCase :: "string \<Rightarrow> string" where
  "toLowerCase s = map lower_char s"

definition trim :: "string \<Rightarrow> string" where
  "trim s = rev (dropWhile is_ws (rev (dropWhile is_ws s)))"

definition startsWith :: "string \<Rightarrow> string \<Rightarrow> bool" where
  "startsWith s p \<longleftrightarrow> take (length p) s = p"

fun js_includes :: "string \<Rightarrow> string \<Rightarrow> bool" where
  "js_includes [] p = (p = [])"
| "js_includes (c # cs) p = (startsWith (c # cs) p \<or> js_includes cs p)"

text \<open>\<^verbatim>\<open>s.split('\n')\<close>: never empty, one more element than there are newlines.\<close>

fun split_nl :: "string \<Rightarrow> string list" where
  "split_nl [] = [[]]"
| "split_nl (c # cs) =
     (if c = nl then [] # split_nl cs
      else (case split_nl cs of [] \<Rightarrow> [[c]] | l # ls \<Rightarrow> (c # l) # ls))"

text \<open>Decimal rendering of a number inside a template string.\<close>

function string_of_nat :: "nat \<Rightarrow> string" where
  "string_of_nat n =
     (if n < 10 then [char_of (48 + n)]
      else string_of_nat (n div 10) @ [char_of (48 + n mod 10)])"
  by pat_completeness auto
termination
  by (relation "measure id") auto

declare string_of_nat.simps [simp del]

section \<open>Regular expressions\<close>

text \<open>
  The regular expressions of the source are kept as data and run by a backtracking
  matcher that follows the ECMAScript rules: alternatives are tried left to right, a
  greedy quantifier tries the longest repetition first and a lazy one the shortest,
  and an iteration of a quantifier that consumes nothing is rejected.
\<close>

datatype rx =
    Chr char
  | Cls "char \<Rightarrow> bool"
  | Eps
  | Seq rx rx
  | Alt rx rx
  | Star rx
  | LazyStar rx
  | Grp nat rx
  | Bol
  | Eol
  | Wordb

text \<open>
  A matcher state: the consumed input (reversed), the remaining input and the
  captures recorded so far (latest first).
\<close>

type_synonym mstate = "string \<times> string \<times> (nat \<times> string) list"

text \<open>All ways of matching, in the order in which backtracking tries them.\<close>

fun ms :: "rx \<Rightarrow> mstate \<Rightarrow> mstate list" where
  "ms (Chr x) (b, s, c) =
     (case s of [] \<Rightarrow> [] | y # ys \<Rightarrow> if y = x then [(y # b, ys, c)] else [])"
| "ms (Cls P) (b, s, c) =
     (case s of [] \<Rightarrow> [] | y # ys \<Rightarrow> if P y then [(y # b, ys, c)] else [])"
| "ms Eps st = [st]"
| "ms (Seq r1 r2) st = concat (map (ms r2) (ms r1 st))"
| "ms (Alt r1 r2) st = ms r1 st @ ms r2 st"
| "ms (Star r) (b, s, c) =
     concat (map (\<lambda>st'. if length (fst (snd st')) < length s then ms (Star r) st' else [])
                 (ms r (b, s, c))) @ [(b, s, c)]"
| "ms (LazyStar r) (b, s, c) =
     (b, s, c) #
     concat (map (\<lambda>st'. if length (fst (snd st')) < length s then ms (LazyStar r) st' else [])
                 (ms r (b, s, c)))"
| "ms (Grp n r) (b, s, c) =
     map (\<lambda>st'. (fst st', fst (snd st'),
                  (n, take (length s - length (fst (snd st'))) s) # snd (snd st')))
         (ms r (b, s, c))"
| "ms Bol (b, s, c) = (if b = [] then [(b, s, c)] else [])"
| "ms Eol (b, s, c) = (if s = [] then [(b, s, c)] else [])"
| "ms Wordb (b, s, c) =
     (if (case b of [] \<Rightarrow> False | x # _ \<Rightarrow> is_word x) \<noteq> (case s of [] \<Rightarrow> False | y # _ \<Rightarrow> is_word y)
      then [(b, s, c)] else [])"

text \<open>Derived forms: a literal, \<^verbatim>\<open>r+\<close>, \<^verbatim>\<open>r?\<close>, a choice between literals.\<close>

fun Lit :: "string \<Rightarrow> rx" where
  "Lit [] = Eps"
| "Lit (x # xs) = Seq (Chr x) (Lit xs)"

definition Plus :: "rx \<Rightarrow> rx" where
  "Plus r = Seq r (Star r)"

definition Opt :: "rx \<Rightarrow> rx" where
  "Opt r = Alt r Eps"

fun Seqs :: "rx list \<Rightarrow> rx" where
  "Seqs [] = Eps"
| "Seqs [r] = r"
| "Seqs (r # rs) = Seq r (Seqs rs)"

fun Alts :: "rx list \<Rightarrow> rx" where
  "Alts [] = Eps"
| "Alts [r] = r"
| "Alts (r # rs) = Alt r (Alts rs)"

definition one_of :: "string \<Rightarrow> char \<Rightarrow> bool" where
  "one_of cs c \<longleftrightarrow> c \<in> set cs"

definition none_of :: "string \<Rightarrow> char \<Rightarrow> bool" where
  "none_of cs c \<longleftrightarrow> c \<notin> set cs"

text \<open>
  The result of \<^verbatim>\<open>exec\<close>: the index of the match, the matched text and the captures.
\<close>

record rmatch =
  mindex :: nat
  mtext :: string
  mcaps :: "(nat \<times> string) list"

text \<open>The text of capture group \<open>n\<close>, or \<open>None\<close> for \<^verbatim>\<open>undefined\<close>.\<close>

definition grp :: "rmatch \<Rightarrow> nat \<Rightarrow> string option" where
  "grp m n = map_of (mcaps m) n"

text \<open>The first match, trying every start position from the left.\<close>

fun rx_search :: "rx \<Rightarrow> string \<Rightarrow> string \<Rightarrow> rmatch option" where
  "rx_search r b [] =
     (case ms r (b, [], []) of
        [] \<Rightarrow> None
      | st # _ \<Rightarrow> Some \<lparr>mindex = length b, mtext = [], mcaps = snd (snd st)\<rparr>)"
| "rx_search r b (x # xs) =
     (case ms r (b, x # xs, []) of
        [] \<Rightarrow> rx_search r (x # b) xs
      | st # _ \<Rightarrow>
          Some \<lparr>mindex = length b,
                mtext = take (length (x # xs) - length (fst (snd st))) (x # xs),
                mcaps = snd (snd st)\<rparr>)"

text \<open>\<^verbatim>\<open>s.match(r)\<close> without the global flag, and \<^verbatim>\<open>r.test(s)\<close>.\<close>

definition js_match :: "string \<Rightarrow> rx \<Rightarrow> rmatch option" where
  "js_match s r = rx_search r [] s"

definition js_test :: "rx \<Rightarrow> string \<Rightarrow> bool" where
  "js_test r s \<longleftrightarrow> js_match s r \<noteq> None"

text \<open>\<^verbatim>\<open>s.replace(r, '')\<close> without the global flag: the first match is removed.\<close>

definition js_remove :: "string \<Rightarrow> rx \<Rightarrow> string" where
  "js_remove s r =
     (case js_match s r of
        None \<Rightarrow> s
      | Some m \<Rightarrow> take (mindex m) s @ drop (mindex m + length (mtext m)) s)"

text \<open>
  The text of a group that takes part in every match of its pattern; a group that
  did not take part reads as the empty string, as in \<^verbatim>\<open>m[n] || ''\<close>.
\<close>

definition grp_txt :: "rmatch \<Rightarrow> nat \<Rightarrow> string" where
  "grp_txt m n = (case grp m n of None \<Rightarrow> [] | Some t \<Rightarrow> t)"

section \<open>Shape lexicon\<close>

record shape_config =
  pattern :: rx
  cstyle :: string
  cfillColor :: string
  cstrokeColor :: string

text \<open>\<^verbatim>\<open>/^\(\[([^\]]+)\]\)$/\<close>\<close>

definition stadium :: shape_config where
  "stadium =
     \<lparr>pattern = Seqs [Bol, Lit ''(['', Grp 1 (Plus (Cls (none_of '']''))), Lit ''])'', Eol],
      cstyle = ''rounded=1;arcSize=50;whiteSpace=wrap;html=1;'',
      cfillColor = ''#d5e8d4'', cstrokeColor = ''#82b366''\<rparr>"

text \<open>\<^verbatim>\<open>/^\(\(([^)]+)\)\)$/\<close>\<close>

definition circle :: shape_config where
  "circle =
     \<lparr>pattern = Seqs [Bol, Lit ''(('', Grp 1 (Plus (Cls (none_of '')''))), Lit ''))'', Eol],
      cstyle = ''ellipse;whiteSpace=wrap;html=1;'',
      cfillColor = ''#f8cecc'', cstrokeColor = ''#b85450''\<rparr>"

text \<open>\<^verbatim>\<open>/^\[\[([^\]]+)\]\]$/\<close>\<close>

definition subroutine :: shape_config where
  "subroutine =
     \<lparr>pattern = Seqs [Bol, Lit ''[['', Grp 1 (Plus (Cls (none_of '']''))), Lit '']]'', Eol],
      cstyle = ''shape=process;whiteSpace=wrap;html=1;'',
      cfillColor = ''#e1d5e7'', cstrokeColor = ''#9673a6''\<rparr>"

text \<open>\<^verbatim>\<open>/^\[([^\]]+)\]$/\<close>\<close>

definition rectangle :: shape_config where
  "rectangle =
     \<lparr>pattern = Seqs [Bol, Lit ''['', Grp 1 (Plus (Cls (none_of '']''))), Lit '']'', Eol],
      cstyle = ''rounded=0;whiteSpace=wrap;html=1;'',
      cfillColor = ''#dae8fc'', cstrokeColor = ''#6c8ebf''\<rparr>"

text \<open>\<^verbatim>\<open>/^\(([^)]+)\)$/\<close>\<close>

definition roundedRect :: shape_config where
  "roundedRect =
     \<lparr>pattern = Seqs [Bol, Lit ''('', Grp 1 (Plus (Cls (none_of '')''))), Lit '')'', Eol],
      cstyle = ''rounded=1;whiteSpace=wrap;html=1;'',
      cfillColor = ''#fff2cc'', cstrokeColor = ''#d6b656''\<rparr>"

text \<open>\<^verbatim>\<open>/^\{([^}]+)\}$/\<close>\<close>

definition diamond :: shape_config where
  "diamond =
     \<lparr>pattern = Seqs [Bol, Lit ''{'', Grp 1 (Plus (Cls (none_of ''}''))), Lit ''}'', Eol],
      cstyle = ''rhombus;whiteSpace=wrap;html=1;'',
      cfillColor = ''#ffe6cc'', cstrokeColor = ''#d79b00''\<rparr>"

text \<open>The table, in the order of its keys (the order \<^verbatim>\<open>Object.entries\<close> walks).\<close>

definition SHAPE_MAPPINGS :: "(string \<times> shape_config) list" where
  "SHAPE_MAPPINGS =
     [(''stadium'', stadium), (''circle'', circle), (''subroutine'', subroutine),
      (''rectangle'', rectangle), (''roundedRect'', roundedRect), (''diamond'', diamond)]"

record shape_info =
  shape :: string
  label :: string
  style :: string
  fillColor :: string
  strokeColor :: string

text \<open>The loop of \<^verbatim>\<open>parseNodeShape\<close>: the first entry whose pattern matches.\<close>

fun firstShape :: "(string \<times> shape_config) list \<Rightarrow> string \<Rightarrow> shape_info option" where
  "firstShape [] nodeContent = None"
| "firstShape ((shapeName, config) # rest) nodeContent =
     (case js_match nodeContent (pattern config) of
        Some m \<Rightarrow>
          Some \<lparr>shape = shapeName, label = trim (grp_txt m 1), style = cstyle config,
                fillColor = cfillColor config, strokeColor = cstrokeColor config\<rparr>
      | None \<Rightarrow> firstShape rest nodeContent)"

definition parseNodeShape :: "string \<Rightarrow> shape_info" where
  "parseNodeShape nodeContent =
     (case firstShape SHAPE_MAPPINGS nodeContent of
        Some info \<Rightarrow> info
      | None \<Rightarrow>
          \<lparr>shape = ''rectangle'', label = trim nodeContent, style = cstyle rectangle,
           fillColor = cfillColor rectangle, strokeColor = cstrokeColor rectangle\<rparr>)"

section \<open>Arrows and connection lines\<close>

text \<open>An arrow descriptor; \<open>hasLabel\<close> absent reads as false.\<close>

record arrow_config =
  atype :: string
  arrow :: string
  hasLabel :: bool

definition arrowTypes :: "(string \<times> arrow_config) list" where
  "arrowTypes =
     [(''-->'', \<lparr>atype = ''solid'', arrow = ''classic'', hasLabel = False\<rparr>),
      (''---'', \<lparr>atype = ''solid'', arrow = ''none'', hasLabel = False\<rparr>),
      (''-.->'', \<lparr>atype = ''dashed'', arrow = ''classic'', hasLabel = False\<rparr>),
      (''-.-'', \<lparr>atype = ''dashed'', arrow = ''none'', hasLabel = False\<rparr>),
      (''==>'', \<lparr>atype = ''thick'', arrow = ''classic'', hasLabel = False\<rparr>),
      (''-->|'', \<lparr>atype = ''solid'', arrow = ''classic'', hasLabel = True\<rparr>),
      (''--|'', \<lparr>atype = ''solid'', arrow = ''none'', hasLabel = True\<rparr>)]"

fun firstArrow :: "(string \<times> arrow_config) list \<Rightarrow> string \<Rightarrow> arrow_config option" where
  "firstArrow [] arrowStr = None"
| "firstArrow ((pat, config) # rest) arrowStr =
     (if js_includes arrowStr pat then Some config else firstArrow rest arrowStr)"

definition parseArrow :: "string \<Rightarrow> arrow_config" where
  "parseArrow arrowStr =
     (case firstArrow arrowTypes arrowStr of
        Some config \<Rightarrow> config
      | None \<Rightarrow> \<lparr>atype = ''solid'', arrow = ''classic'', hasLabel = False\<rparr>)"

text \<open>A node: an id and the shape descriptor spread into it.\<close>

record node = shape_info +
  nid :: string

definition mk_node :: "string \<Rightarrow> shape_info \<Rightarrow> node" where
  "mk_node i info =
     \<lparr>shape = shape info, label = label info, style = style info,
      fillColor = fillColor info, strokeColor = strokeColor info, nid = i\<rparr>"

record connection =
  csource :: string
  ctarget :: string
  clabel :: string
  carrowType :: arrow_config
  sourceNode :: "node option"
  targetNode :: "node option"

text \<open>\<^verbatim>\<open>x || d\<close> on a string that may be undefined: the empty string is falsy.\<close>

definition js_or :: "string option \<Rightarrow> string \<Rightarrow> string" where
  "js_or x d = (case x of None \<Rightarrow> d | Some t \<Rightarrow> if t = [] then d else t)"

text \<open>
  \<^verbatim>\<open>/^(\w+)([\[\(\{].*?[\]\)\}])?\s*(-->|---|-\.->|-\.-|==>)(\|([^|]*)\|)?\s*(.+)$/\<close>
\<close>

definition connectionPattern :: rx where
  "connectionPattern =
     Seqs [Bol, Grp 1 (Plus (Cls is_word)),
           Opt (Grp 2 (Seqs [Cls (one_of ''[({''), LazyStar (Cls is_dot), Cls (one_of ''])}'')])),
           Star (Cls is_ws),
           Grp 3 (Alts [Lit ''-->'', Lit ''---'', Lit ''-.->'', Lit ''-.-'', Lit ''==>'']),
           Opt (Grp 4 (Seqs [Chr CHR ''|'', Grp 5 (Star (Cls (none_of ''|''))), Chr CHR ''|''])),
           Star (Cls is_ws),
           Grp 6 (Plus (Cls is_dot)), Eol]"

text \<open>\<^verbatim>\<open>/^(\w+)([\[\(\{].*?[\]\)\}])$/\<close>\<close>

definition inlineDefPattern :: rx where
  "inlineDefPattern =
     Seqs [Bol, Grp 1 (Plus (Cls is_word)),
           Grp 2 (Seqs [Cls (one_of ''[({''), LazyStar (Cls is_dot), Cls (one_of ''])}'')]),
           Eol]"

definition parseConnection :: "string \<Rightarrow> connection option" where
  "parseConnection line =
     (case js_match line connectionPattern of
        None \<Rightarrow> None
      | Some m \<Rightarrow>
          (let sourceId = grp_txt m 1;
               sourceShape = grp m 2;
               arrowConfig = parseArrow (grp_txt m 3);
               edgeLabel = grp m 5;
               targetPart = grp_txt m 6;
               sourceNode =
                 (case sourceShape of
                    None \<Rightarrow> None
                  | Some sh \<Rightarrow> if sh = [] then None else Some (mk_node sourceId (parseNodeShape sh)))
           in (case js_match targetPart inlineDefPattern of
                 Some im \<Rightarrow>
                   Some \<lparr>csource = sourceId, ctarget = grp_txt im 1, clabel = js_or edgeLabel [],
                         carrowType = arrowConfig, sourceNode = sourceNode,
                         targetNode = Some (mk_node (grp_txt im 1) (parseNodeShape (grp_txt im 2)))\<rparr>
               | None \<Rightarrow>
                   Some \<lparr>csource = sourceId, ctarget = trim targetPart, clabel = js_or edgeLabel [],
                         carrowType = arrowConfig, sourceNode = sourceNode,
                         targetNode = None\<rparr>)))"

section \<open>Diagram kinds\<close>

datatype error = EmptyDiagram | TypeError

text \<open>ASCII and Latin-1 letters whose capital stays in the Latin-1 range.\<close>

definition upper_char :: "char \<Rightarrow> char" where
  "upper_char c =
     (let n = (of_char c :: nat) in
        if (97 \<le> n \<and> n \<le> 122) \<or> (224 \<le> n \<and> n \<le> 246) \<or> (248 \<le> n \<and> n \<le> 254)
        then char_of (n - 32) else c)"

definition toUpperCase :: "string \<Rightarrow> string" where
  "toUpperCase s = map upper_char s"

text \<open>A literal under the \<^verbatim>\<open>i\<close> flag: each letter also matches its other case.\<close>

fun LitI :: "string \<Rightarrow> rx" where
  "LitI [] = Eps"
| "LitI (x # xs) = Seq (Cls (one_of [lower_char x, upper_char x])) (LitI xs)"

text \<open>\<^verbatim>\<open>/\b(td|tb|bt|lr|rl)\b/i\<close>\<close>

definition directionPattern :: rx where
  "directionPattern =
     Seqs [Wordb, Grp 1 (Alts [LitI ''td'', LitI ''tb'', LitI ''bt'', LitI ''lr'', LitI ''rl'']), Wordb]"

text \<open>
  \<^verbatim>\<open>lines[0]\<close> of an empty array is undefined and \<^verbatim>\<open>.trim()\<close> on it throws;
  the only caller passes a non-empty array.
\<close>

definition detectDiagramType :: "string list \<Rightarrow> error + (string \<times> string option)" where
  "detectDiagramType lines =
     (case lines of
        [] \<Rightarrow> Inl TypeError
      | l # _ \<Rightarrow>
          (let firstLine = toLowerCase (trim l) in
             if startsWith firstLine ''flowchart'' \<or> startsWith firstLine ''graph'' then
               Inr (''flowchart'',
                    Some (js_or (map_option toUpperCase
                                   (case js_match firstLine directionPattern of
                                      None \<Rightarrow> None | Some m \<Rightarrow> grp m 1)) ''TD''))
             else if startsWith firstLine ''sequencediagram'' then Inr (''sequence'', None)
             else if startsWith firstLine ''classdiagram'' then Inr (''class'', None)
             else if startsWith firstLine ''erdiagram'' then Inr (''erDiagram'', None)
             else if startsWith firstLine ''statediagram'' then Inr (''state'', None)
             else if startsWith firstLine ''gitgraph'' then Inr (''gitgraph'', None)
             else if startsWith firstLine ''mindmap'' then Inr (''mindmap'', None)
             else Inr (''unknown'', None)))"

section \<open>Insertion-ordered maps\<close>

text \<open>
  A JavaScript \<^verbatim>\<open>Map\<close> keeps its keys in insertion order, and \<^verbatim>\<open>set\<close> on a
  present key replaces the value in place: an association list with distinct keys.
\<close>

fun map_set :: "('k \<times> 'v) list \<Rightarrow> 'k \<Rightarrow> 'v \<Rightarrow> ('k \<times> 'v) list" where
  "map_set [] k v = [(k, v)]"
| "map_set ((k', v') # m) k v =
     (if k' = k then (k, v) # m else (k', v') # map_set m k v)"

definition map_has :: "('k \<times> 'v) list \<Rightarrow> 'k \<Rightarrow> bool" where
  "map_has m k \<longleftrightarrow> map_of m k \<noteq> None"

definition map_values :: "('k \<times> 'v) list \<Rightarrow> 'v list" where
  "map_values m = map snd m"

section \<open>The flowchart scanner\<close>

record edge =
  eid :: string
  source :: string
  target :: string
  elabel :: string
  arrowType :: "arrow_config option"

record subgraph =
  sgid :: string
  sglabel :: string
  sgnodes :: "string list"

record flow_state =
  fnodes :: "(string \<times> node) list"
  fedges :: "edge list"
  fsubgraphs :: "subgraph list"
  currentSubgraph :: "subgraph option"

text \<open>\<^verbatim>\<open>/subgraph\s+(\w+)(?:\s*\[([^\]]+)\])?/\<close>\<close>

definition subgraphPattern :: rx where
  "subgraphPattern =
     Seqs [Lit ''subgraph'', Plus (Cls is_ws), Grp 1 (Plus (Cls is_word)),
           Opt (Seqs [Star (Cls is_ws), Chr CHR ''['', Grp 2 (Plus (Cls (none_of '']''))),
                      Chr CHR '']''])]"

text \<open>\<^verbatim>\<open>/^(\w+)([\[\(\{].+[\]\)\}])$/\<close>\<close>

definition nodeDefPattern :: rx where
  "nodeDefPattern =
     Seqs [Bol, Grp 1 (Plus (Cls is_word)),
           Grp 2 (Seqs [Cls (one_of ''[({''), Plus (Cls is_dot), Cls (one_of ''])}'')]),
           Eol]"

text \<open>The node created for an id that is referenced without a shape.\<close>

definition default_node :: "string \<Rightarrow> node" where
  "default_node i =
     \<lparr>shape = ''rectangle'', label = i, style = cstyle rectangle,
      fillColor = cfillColor rectangle, strokeColor = cstrokeColor rectangle, nid = i\<rparr>"

definition upsert_ref :: "(string \<times> node) list \<Rightarrow> string \<Rightarrow> node option \<Rightarrow> (string \<times> node) list" where
  "upsert_ref nodes i inl =
     (case inl of
        Some n \<Rightarrow> map_set nodes i n
      | None \<Rightarrow> if map_has nodes i then nodes else map_set nodes i (default_node i))"

definition push_new :: "string list \<Rightarrow> string \<Rightarrow> string list" where
  "push_new xs x = (if x \<in> set xs then xs else xs @ [x])"

text \<open>One turn of the loop of \<^verbatim>\<open>parseFlowchart\<close>, on the raw line.\<close>

definition flow_step :: "string \<Rightarrow> flow_state \<Rightarrow> flow_state" where
  "flow_step raw st =
     (let line = trim raw in
        if line = [] \<or> startsWith line ''%%'' then st
        else if startsWith line ''subgraph'' then
          (case js_match line subgraphPattern of
             Some m \<Rightarrow>
               st\<lparr>currentSubgraph :=
                    Some \<lparr>sgid = grp_txt m 1, sglabel = js_or (grp m 2) (grp_txt m 1),
                          sgnodes = []\<rparr>\<rparr>
           | None \<Rightarrow> st)
        else if line = ''end'' then
          (case currentSubgraph st of
             Some sg \<Rightarrow> st\<lparr>fsubgraphs := fsubgraphs st @ [sg], currentSubgraph := None\<rparr>
           | None \<Rightarrow> st)
        else
          (case parseConnection line of
             Some conn \<Rightarrow>
               st\<lparr>fnodes :=
                    upsert_ref (upsert_ref (fnodes st) (csource conn) (sourceNode conn))
                               (ctarget conn) (targetNode conn),
                  currentSubgraph :=
                    map_option
                      (\<lambda>sg. sg\<lparr>sgnodes := push_new (push_new (sgnodes sg) (csource conn)) (ctarget conn)\<rparr>)
                      (currentSubgraph st),
                  fedges :=
                    fedges st @
                    [\<lparr>eid = ''e'' @ string_of_nat (length (fedges st) + 1),
                      source = csource conn, target = ctarget conn, elabel = clabel conn,
                      arrowType = Some (carrowType conn)\<rparr>]\<rparr>
           | None \<Rightarrow>
               (case js_match line nodeDefPattern of
                  Some m \<Rightarrow>
                    st\<lparr>fnodes :=
                         map_set (fnodes st) (grp_txt m 1)
                                 (mk_node (grp_txt m 1) (parseNodeShape (grp_txt m 2))),
                       currentSubgraph :=
                         map_option (\<lambda>sg. sg\<lparr>sgnodes := sgnodes sg @ [grp_txt m 1]\<rparr>)
                                    (currentSubgraph st)\<rparr>
                | None \<Rightarrow> st)))"

section \<open>The other scanners\<close>

record participant =
  pid :: string
  plabel :: string
  isActor :: bool

record message =
  mfrom :: string
  mto :: string
  mmessage :: string
  mkind :: string
  isAsync :: bool

text \<open>\<^verbatim>\<open>/participant\s+(\w+)(?:\s+as\s+(.+))?/\<close> and the same with \<^verbatim>\<open>actor\<close>.\<close>

definition declPattern :: "string \<Rightarrow> rx" where
  "declPattern kw =
     Seqs [Lit kw, Plus (Cls is_ws), Grp 1 (Plus (Cls is_word)),
           Opt (Seqs [Plus (Cls is_ws), Lit ''as'', Plus (Cls is_ws), Grp 2 (Plus (Cls is_dot))])]"

text \<open>\<^verbatim>\<open>/(\w+)\s*(->>?|-->>?|-)>?\s*(\w+)\s*:\s*(.+)/\<close>\<close>

definition messagePattern :: rx where
  "messagePattern =
     Seqs [Grp 1 (Plus (Cls is_word)), Star (Cls is_ws),
           Grp 2 (Alts [Seq (Lit ''->'') (Opt (Chr CHR ''>'')),
                        Seq (Lit ''-->'') (Opt (Chr CHR ''>'')),
                        Lit ''-'']),
           Opt (Chr CHR ''>''), Star (Cls is_ws),
           Grp 3 (Plus (Cls is_word)), Star (Cls is_ws), Chr CHR '':'', Star (Cls is_ws),
           Grp 4 (Plus (Cls is_dot))]"

definition seq_step :: "string \<Rightarrow> participant list \<times> message list \<Rightarrow> participant list \<times> message list" where
  "seq_step raw st =
     (let line = trim raw; participants = fst st; messages = snd st in
        if line = [] \<or> startsWith line ''%%'' then st
        else
          (case js_match line (declPattern ''participant'') of
             Some m \<Rightarrow>
               (participants @
                  [\<lparr>pid = grp_txt m 1, plabel = js_or (grp m 2) (grp_txt m 1), isActor = False\<rparr>],
                messages)
           | None \<Rightarrow>
               (case js_match line (declPattern ''actor'') of
                  Some m \<Rightarrow>
                    (participants @
                       [\<lparr>pid = grp_txt m 1, plabel = js_or (grp m 2) (grp_txt m 1), isActor = True\<rparr>],
                     messages)
                | None \<Rightarrow>
                    (case js_match line messagePattern of
                       Some m \<Rightarrow>
                         (participants,
                          messages @
                            [\<lparr>mfrom = grp_txt m 1, mto = grp_txt m 3, mmessage = grp_txt m 4,
                              mkind = (if js_includes (grp_txt m 2) ''--'' then ''dashed'' else ''solid''),
                              isAsync = js_includes (grp_txt m 2) ''>>''\<rparr>])
                     | None \<Rightarrow> st))))"

text \<open>\<^verbatim>\<open>messages.map((m, i) => ({id: `e${i + 1}`, source: m.from, target: m.to, label: m.message}))\<close>\<close>

definition seq_edges :: "message list \<Rightarrow> edge list" where
  "seq_edges messages =
     map (\<lambda>(i, m). \<lparr>eid = ''e'' @ string_of_nat (i + 1), source = mfrom m, target = mto m,
                      elabel = mmessage m, arrowType = None\<rparr>)
         (zip [0..<length messages] messages)"

record attribute =
  attrType :: string
  attrName :: string

record entity =
  entId :: string
  entLabel :: string
  attributes :: "attribute list"

record relationship =
  rid :: string
  rsource :: string
  rtarget :: string
  cardinality1 :: string
  cardinality2 :: string
  rlabel :: string

text \<open>
  The entity under the cursor is a reference into the map; it is kept as its key, and
  a push to its attributes is an update of the map at that key.
\<close>

record er_state =
  entities :: "(string \<times> entity) list"
  relationships :: "relationship list"
  currentEntity :: "string option"
  inEntityBlock :: bool

text \<open>\<^verbatim>\<open>/^(\w+)\s*\{$/\<close>\<close>

definition entityBlockStart :: rx where
  "entityBlockStart = Seqs [Bol, Grp 1 (Plus (Cls is_word)), Star (Cls is_ws), Chr CHR ''{'', Eol]"

text \<open>\<^verbatim>\<open>/^(\w+)\s+(\w+)\s*$/\<close>\<close>

definition attrPattern :: rx where
  "attrPattern =
     Seqs [Bol, Grp 1 (Plus (Cls is_word)), Plus (Cls is_ws), Grp 2 (Plus (Cls is_word)),
           Star (Cls is_ws), Eol]"

text \<open>
  \<^verbatim>\<open>/(\w+)\s*(\|\||\|o|o\||o\{|\{o|\}\||\|\{|\{|)\s*--\s*(\|\||\|o|o\||\{o|o\{|\|\{|\}\|||\{)\s*(\w+)\s*:\s*"?([^"]+)"?/\<close>
\<close>

definition relPattern :: rx where
  "relPattern =
     Seqs [Grp 1 (Plus (Cls is_word)), Star (Cls is_ws),
           Grp 2 (Alts [Lit ''||'', Lit ''|o'', Lit ''o|'', Lit ''o{'', Lit ''{o'', Lit ''}|'',
                        Lit ''|{'', Lit ''{'', Eps]),
           Star (Cls is_ws), Lit ''--'', Star (Cls is_ws),
           Grp 3 (Alts [Lit ''||'', Lit ''|o'', Lit ''o|'', Lit ''{o'', Lit ''o{'', Lit ''|{'',
                        Lit ''}|'', Eps, Lit ''{'']),
           Star (Cls is_ws), Grp 4 (Plus (Cls is_word)), Star (Cls is_ws), Chr CHR '':'',
           Star (Cls is_ws), Opt (Chr CHR 0x22), Grp 5 (Plus (Cls (none_of [CHR 0x22]))),
           Opt (Chr CHR 0x22)]"

text \<open>\<^verbatim>\<open>/(\w+)\s*\{\s*(\w+)\s+(\w+)\s*\}/\<close>\<close>

definition singleLineAttr :: rx where
  "singleLineAttr =
     Seqs [Grp 1 (Plus (Cls is_word)), Star (Cls is_ws), Chr CHR ''{'', Star (Cls is_ws),
           Grp 2 (Plus (Cls is_word)), Plus (Cls is_ws), Grp 3 (Plus (Cls is_word)),
           Star (Cls is_ws), Chr CHR ''}'']"

definition new_entity :: "string \<Rightarrow> entity" where
  "new_entity n = \<lparr>entId = n, entLabel = n, attributes = []\<rparr>"

definition ensure_entity :: "(string \<times> entity) list \<Rightarrow> string \<Rightarrow> (string \<times> entity) list" where
  "ensure_entity ents n = (if map_has ents n then ents else map_set ents n (new_entity n))"

definition push_attribute :: "(string \<times> entity) list \<Rightarrow> string \<Rightarrow> attribute \<Rightarrow> (string \<times> entity) list" where
  "push_attribute ents n a =
     (case map_of ents n of
        None \<Rightarrow> ents
      | Some e \<Rightarrow> map_set ents n (e\<lparr>attributes := attributes e @ [a]\<rparr>))"

text \<open>The part of the loop of \<^verbatim>\<open>parseERDiagram\<close> after the attribute check.\<close>

definition er_rest :: "string \<Rightarrow> er_state \<Rightarrow> er_state" where
  "er_rest line st =
     (case js_match line relPattern of
        Some m \<Rightarrow>
          st\<lparr>entities := ensure_entity (ensure_entity (entities st) (grp_txt m 1)) (grp_txt m 4),
             relationships :=
               relationships st @
               [\<lparr>rid = ''r'' @ string_of_nat (length (relationships st) + 1),
                 rsource = grp_txt m 1, rtarget = grp_txt m 4,
                 cardinality1 = js_or (grp m 2) ''||'', cardinality2 = js_or (grp m 3) ''||'',
                 rlabel = trim (grp_txt m 5)\<rparr>]\<rparr>
      | None \<Rightarrow>
          (case js_match line singleLineAttr of
             Some m \<Rightarrow>
               st\<lparr>entities :=
                    push_attribute (ensure_entity (entities st) (grp_txt m 1)) (grp_txt m 1)
                      \<lparr>attrType = grp_txt m 2, attrName = grp_txt m 3\<rparr>\<rparr>
           | None \<Rightarrow> st))"

definition er_step :: "string \<Rightarrow> er_state \<Rightarrow> er_state" where
  "er_step raw st =
     (let line = trim raw in
        if line = [] \<or> startsWith line ''%%'' then st
        else if line = ''}'' then st\<lparr>inEntityBlock := False, currentEntity := None\<rparr>
        else
          (case js_match line entityBlockStart of
             Some m \<Rightarrow>
               st\<lparr>entities := ensure_entity (entities st) (grp_txt m 1),
                  currentEntity := Some (grp_txt m 1), inEntityBlock := True\<rparr>
           | None \<Rightarrow>
               (case (if inEntityBlock st then currentEntity st else None) of
                  Some cur \<Rightarrow>
                    (case js_match line attrPattern of
                       Some m \<Rightarrow>
                         st\<lparr>entities :=
                              push_attribute (entities st) cur
                                \<lparr>attrType = grp_txt m 1, attrName = grp_txt m 2\<rparr>\<rparr>
                     | None \<Rightarrow> er_rest line st)
                | None \<Rightarrow> er_rest line st)))"

record mnode = node +
  level :: nat

record mind_state =
  mnodes :: "mnode list"
  medges :: "edge list"
  nodeStack :: "(nat \<times> mnode) list"
  nodeId :: nat

definition getLevelColor :: "nat \<Rightarrow> string" where
  "getLevelColor lv =
     [''#f8cecc'', ''#dae8fc'', ''#d5e8d4'', ''#fff2cc'', ''#e1d5e7'', ''#ffe6cc''] ! (lv mod 6)"

definition getLevelStrokeColor :: "nat \<Rightarrow> string" where
  "getLevelStrokeColor lv =
     [''#b85450'', ''#6c8ebf'', ''#82b366'', ''#d6b656'', ''#9673a6'', ''#d79b00''] ! (lv mod 6)"

text \<open>\<^verbatim>\<open>/\S/\<close>, \<^verbatim>\<open>/^root\(\((.+)\)\)$/\<close>, \<^verbatim>\<open>/^\((.+)\)$/\<close> and \<^verbatim>\<open>/^\[(.+)\]$/\<close>\<close>

definition nonSpace :: rx where
  "nonSpace = Cls (\<lambda>c. \<not> is_ws c)"

definition rootPattern :: rx where
  "rootPattern = Seqs [Bol, Lit ''root(('', Grp 1 (Plus (Cls is_dot)), Lit ''))'', Eol]"

definition roundPattern :: rx where
  "roundPattern = Seqs [Bol, Lit ''('', Grp 1 (Plus (Cls is_dot)), Lit '')'', Eol]"

definition squarePattern :: rx where
  "squarePattern = Seqs [Bol, Lit ''['', Grp 1 (Plus (Cls is_dot)), Lit '']'', Eol]"

definition mind_content :: "string \<Rightarrow> string \<times> string" where
  "mind_content content =
     (case js_match content rootPattern of
        Some m \<Rightarrow> (grp_txt m 1, ''circle'')
      | None \<Rightarrow>
          (case js_match content roundPattern of
             Some m \<Rightarrow> (grp_txt m 1, ''roundedRect'')
           | None \<Rightarrow>
               (case js_match content squarePattern of
                  Some m \<Rightarrow> (grp_txt m 1, ''rectangle'')
                | None \<Rightarrow> (content, ''rectangle''))))"

text \<open>
  One turn of the loop of \<^verbatim>\<open>parseMindmap\<close>. The stack of parents is a sparse array,
  kept as an association list whose first entry for an index is the current one. A
  line that passes the blank check has a character that is not white space, so the
  search for one finds it.
\<close>

definition mind_step :: "string \<Rightarrow> mind_state \<Rightarrow> mind_state" where
  "mind_step raw st =
     (if trim raw = [] then st
      else
        (case js_match raw nonSpace of
           None \<Rightarrow> st
         | Some im \<Rightarrow>
             (let lv = mindex im div 2;
                  content = trim raw;
                  lbl = fst (mind_content content);
                  shp = snd (mind_content content);
                  nd = \<lparr>shape = shp, label = lbl,
                        style = (if shp = ''circle'' then ''ellipse;whiteSpace=wrap;html=1;''
                                 else if shp = ''roundedRect'' then ''rounded=1;whiteSpace=wrap;html=1;''
                                 else ''rounded=0;whiteSpace=wrap;html=1;''),
                        fillColor = getLevelColor lv, strokeColor = getLevelStrokeColor lv,
                        nid = ''node'' @ string_of_nat (nodeId st), level = lv\<rparr>
              in st\<lparr>mnodes := mnodes st @ [nd],
                    nodeId := nodeId st + 1,
                    nodeStack := (lv, nd) # nodeStack st,
                    medges :=
                      (case (if lv > 0 then map_of (nodeStack st) (lv - 1) else None) of
                         Some parent \<Rightarrow>
                           medges st @
                           [\<lparr>eid = ''e'' @ string_of_nat (length (medges st) + 1),
                             source = nid parent, target = nid nd, elabel = [],
                             arrowType = None\<rparr>]
                       | None \<Rightarrow> medges st)\<rparr>)))"

section \<open>The parser\<close>

datatype body =
    FlowBody "node list" "edge list" "subgraph list"
  | SeqBody "participant list" "message list"
  | ERBody "entity list" "relationship list"
  | MindBody "mnode list" "edge list"

text \<open>
  What a parse returns: the kind string, the direction when the dialect has one, and
  the dialect's own lists.
\<close>

record diagram =
  dtype :: string
  direction :: "string option"
  body :: body

text \<open>The \<^verbatim>\<open>nodes\<close> and \<^verbatim>\<open>edges\<close> every result exposes, as ids and as end points.\<close>

fun node_ids :: "body \<Rightarrow> string list" where
  "node_ids (FlowBody ns es sgs) = map nid ns"
| "node_ids (SeqBody ps msgs) = map pid ps"
| "node_ids (ERBody ents rels) = map entId ents"
| "node_ids (MindBody ns es) = map nid ns"

fun edge_ends :: "body \<Rightarrow> (string \<times> string) list" where
  "edge_ends (FlowBody ns es sgs) = map (\<lambda>e. (source e, target e)) es"
| "edge_ends (SeqBody ps msgs) = map (\<lambda>e. (source e, target e)) (seq_edges msgs)"
| "edge_ends (ERBody ents rels) = map (\<lambda>r. (rsource r, rtarget r)) rels"
| "edge_ends (MindBody ns es) = map (\<lambda>e. (source e, target e)) es"

definition parseFlowchart :: "string list \<Rightarrow> string option \<Rightarrow> diagram" where
  "parseFlowchart lines dir =
     (let st = fold flow_step (drop 1 lines)
                 \<lparr>fnodes = [], fedges = [], fsubgraphs = [], currentSubgraph = None\<rparr>
      in \<lparr>dtype = ''flowchart'', direction = dir,
          body = FlowBody (map_values (fnodes st)) (fedges st) (fsubgraphs st)\<rparr>)"

definition parseSequenceDiagram :: "string list \<Rightarrow> diagram" where
  "parseSequenceDiagram lines =
     (let st = fold seq_step (drop 1 lines) ([], [])
      in \<lparr>dtype = ''sequence'', direction = None, body = SeqBody (fst st) (snd st)\<rparr>)"

definition parseERDiagram :: "string list \<Rightarrow> diagram" where
  "parseERDiagram lines =
     (let st = fold er_step (drop 1 lines)
                 \<lparr>entities = [], relationships = [], currentEntity = None, inEntityBlock = False\<rparr>
      in \<lparr>dtype = ''erDiagram'', direction = None,
          body = ERBody (map_values (entities st)) (relationships st)\<rparr>)"

definition parseMindmap :: "string list \<Rightarrow> diagram" where
  "parseMindmap lines =
     (let st = fold mind_step (drop 1 lines)
                 \<lparr>mnodes = [], medges = [], nodeStack = [], nodeId = 0\<rparr>
      in \<lparr>dtype = ''mindmap'', direction = Some ''LR'', body = MindBody (mnodes st) (medges st)\<rparr>)"

text \<open>
  The fences: \<^verbatim>\<open>/^```mermaid\n?/\<close>, \<^verbatim>\<open>/^```\n?/\<close> and \<^verbatim>\<open>/\n?```$/\<close>.
\<close>

definition fenceOpenMermaid :: rx where
  "fenceOpenMermaid = Seqs [Bol, Lit ''```mermaid'', Opt (Chr nl)]"

definition fenceOpen :: rx where
  "fenceOpen = Seqs [Bol, Lit ''```'', Opt (Chr nl)]"

definition fenceClose :: rx where
  "fenceClose = Seqs [Opt (Chr nl), Lit ''```'', Eol]"

definition parse_clean :: "string \<Rightarrow> string" where
  "parse_clean mermaidCode =
     (let code = trim mermaidCode in
        if startsWith code ''```mermaid'' then js_remove (js_remove code fenceOpenMermaid) fenceClose
        else if startsWith code ''```'' then js_remove (js_remove code fenceOpen) fenceClose
        else code)"

definition parseMermaid :: "string \<Rightarrow> error + diagram" where
  "parseMermaid mermaidCode =
     (let lines = split_nl (parse_clean mermaidCode);
          nonEmptyLines = filter (\<lambda>l. trim l \<noteq> []) lines
      in if length nonEmptyLines = 0 then Inl EmptyDiagram
         else
           (case detectDiagramType nonEmptyLines of
              Inl e \<Rightarrow> Inl e
            | Inr (ty, dir) \<Rightarrow>
                if ty = ''flowchart'' then Inr (parseFlowchart nonEmptyLines dir)
                else if ty = ''sequence'' then Inr (parseSequenceDiagram nonEmptyLines)
                else if ty = ''erDiagram'' then Inr (parseERDiagram nonEmptyLines)
                else if ty = ''mindmap'' then Inr (parseMindmap lines)
                else Inr (parseFlowchart nonEmptyLines (Some (js_or dir ''TD'')))))"

section \<open>The validator\<close>

text \<open>
  \<^verbatim>\<open>s.match(r)\<close> with the global flag: the texts of all matches, each search starting
  where the last match ended, one character further after an empty match.
\<close>

function js_match_all :: "rx \<Rightarrow> string \<Rightarrow> string \<Rightarrow> string list" where
  "js_match_all r b s =
     (case rx_search r b s of
        None \<Rightarrow> []
      | Some m \<Rightarrow>
          (let e = mindex m - length b + length (mtext m) in
             mtext m #
             (if mtext m = [] then
                (if e < length s then js_match_all r (rev (take (Suc e) s) @ b) (drop (Suc e) s)
                 else [])
              else js_match_all r (rev (take e s) @ b) (drop e s))))"
  by pat_completeness auto
termination
proof (relation "measure (\<lambda>(r, b, s). length s)")
  show "wf (measure (\<lambda>(r, b, s). length s))" by simp
next
  fix r :: rx and b s :: string and m :: rmatch and e :: nat
  assume "e < length s"
  then show "((r, rev (take (Suc e) s) @ b, drop (Suc e) s), (r, b, s)) \<in> measure (\<lambda>(r, b, s). length s)"
    by simp
next
  fix r :: rx and b s :: string and m :: rmatch and e :: nat
  assume m: "rx_search r b s = Some m" and e: "e = mindex m - length b + length (mtext m)"
    and ne: "mtext m \<noteq> []"
  have "s \<noteq> []" using m ne by (cases s) (auto split: list.splits)
  moreover have "0 < e" using e ne by simp
  ultimately show "((r, rev (take e s) @ b, drop e s), (r, b, s)) \<in> measure (\<lambda>(r, b, s). length s)"
    by simp
qed

declare js_match_all.simps [simp del]

definition js_match_g :: "string \<Rightarrow> rx \<Rightarrow> string list" where
  "js_match_g s r = js_match_all r [] s"

record finding =
  fline :: nat
  fissue :: string
  suggestion :: string

record validation =
  isValid :: bool
  compatibility :: string
  issues :: "finding list"
  warnings :: "finding list"
  nodeCount :: nat
  edgeCount :: nat
  diagramType :: "string option"

definition validTypes :: "string list" where
  "validTypes =
     [''flowchart'', ''graph'', ''sequencediagram'', ''classdiagram'', ''erdiagram'',
      ''statediagram'', ''gitgraph'', ''mindmap'']"

text \<open>\<^verbatim>\<open>/^\s*(\w+)\s*[\[\(\{]/\<close>, \<^verbatim>\<open>/^\w+$/\<close> and \<^verbatim>\<open>/^\s*(\w+)\s*--/\<close>\<close>

definition nodeIdPattern :: rx where
  "nodeIdPattern =
     Seqs [Bol, Star (Cls is_ws), Grp 1 (Plus (Cls is_word)), Star (Cls is_ws),
           Cls (one_of ''[({'')]"

definition wordOnly :: rx where
  "wordOnly = Seqs [Bol, Plus (Cls is_word), Eol]"

definition connIdPattern :: rx where
  "connIdPattern =
     Seqs [Bol, Star (Cls is_ws), Grp 1 (Plus (Cls is_word)), Star (Cls is_ws), Lit ''--'']"

definition styling_warning :: "nat \<Rightarrow> finding" where
  "styling_warning i =
     \<lparr>fline = i + 1, fissue = ''Styling directive found'',
      suggestion = ''Styling may not convert cleanly to Draw.io''\<rparr>"

definition chained_issue :: "nat \<Rightarrow> finding" where
  "chained_issue i =
     \<lparr>fline = i + 1, fissue = ''Chained arrows detected'',
      suggestion = ''Break into separate lines: A --> B and B --> C''\<rparr>"

definition invalid_id_issue :: "nat \<Rightarrow> string \<Rightarrow> finding" where
  "invalid_id_issue i ident =
     \<lparr>fline = i + 1, fissue = ''Invalid node ID: '' @ ident,
      suggestion = ''Use only alphanumeric characters and underscores''\<rparr>"

text \<open>
  One turn of the loop over the lines of \<^verbatim>\<open>validateMermaid\<close>, at index \<open>i\<close>, on the
  issues and the warnings.
\<close>

definition validate_line :: "nat \<times> string \<Rightarrow> finding list \<times> finding list \<Rightarrow> finding list \<times> finding list" where
  "validate_line il acc =
     (let i = fst il; line = trim (snd il);
          warnings1 =
            (if startsWith line ''classDef'' \<or> startsWith line ''style ''
             then snd acc @ [styling_warning i] else snd acc);
          arrowCount = length (js_match_g line (Lit ''-->''));
          issues1 = (if arrowCount > 1 then fst acc @ [chained_issue i] else fst acc);
          issues2 =
            (case js_match line nodeIdPattern of
               Some m \<Rightarrow>
                 if \<not> js_test wordOnly (grp_txt m 1)
                 then issues1 @ [invalid_id_issue i (grp_txt m 1)] else issues1
             | None \<Rightarrow> issues1);
          issues3 =
            (case js_match line connIdPattern of
               Some m \<Rightarrow>
                 if \<not> js_test wordOnly (grp_txt m 1)
                 then issues2 @ [invalid_id_issue i (grp_txt m 1)] else issues2
             | None \<Rightarrow> issues2)
      in (issues3, warnings1))"

definition validate_clean :: "string \<Rightarrow> string" where
  "validate_clean mermaidCode =
     (let code = trim mermaidCode in
        if startsWith code ''```mermaid'' then js_remove (js_remove code fenceOpenMermaid) fenceClose
        else code)"

definition validateMermaid :: "string \<Rightarrow> validation" where
  "validateMermaid mermaidCode =
     (let lines = split_nl (validate_clean mermaidCode);
          firstLine = (case lines of [] \<Rightarrow> [] | l # _ \<Rightarrow> toLowerCase (trim l));
          hasValidType = list_ex (\<lambda>t. startsWith firstLine t) validTypes;
          issues0 =
            (if \<not> hasValidType
             then [\<lparr>fline = 1, fissue = ''Missing or invalid diagram type declaration'',
                    suggestion = ''Start with flowchart TD, sequenceDiagram, etc.''\<rparr>]
             else []);
          warnings0 =
            (if (startsWith firstLine ''flowchart'' \<or> startsWith firstLine ''graph'')
                \<and> \<not> js_test directionPattern firstLine
             then [\<lparr>fline = 1, fissue = ''Direction not specified'',
                    suggestion = ''Add direction: TD, LR, RL, or BT''\<rparr>]
             else []);
          res = fold validate_line (zip [0..<length lines] lines) (issues0, warnings0)
      in \<lparr>isValid = (length (fst res) = 0),
          compatibility =
            (if length (fst res) = 0 then (if length (snd res) = 0 then ''high'' else ''medium'')
             else ''low''),
          issues = fst res, warnings = snd res, nodeCount = 0, edgeCount = 0,
          diagramType = None\<rparr>)"

text \<open>
  The validate command of the command line: the validation, with the counts of a parse
  of the same text when that parse succeeds.
\<close>

definition validate_command :: "string \<Rightarrow> validation" where
  "validate_command mermaidCode =
     (let v = validateMermaid mermaidCode in
        case parseMermaid mermaidCode of
          Inr parseResult \<Rightarrow>
            v\<lparr>nodeCount := length (node_ids (body parseResult)),
              edgeCount := length (edge_ends (body parseResult)),
              diagramType := Some (dtype parseResult)\<rparr>
        | Inl e \<Rightarrow> v)"

section \<open>Adjacency and synthesis of the terminal nodes\<close>

text \<open>
  The adjacency maps that \<^verbatim>\<open>convertToDrawio\<close> and \<^verbatim>\<open>calculatePositions\<close> both
  build: every node id is first bound to the empty list, then every edge whose end is
  a key pushes its other end.
\<close>

definition emptyAdj :: "node list \<Rightarrow> (string \<rightharpoonup> string list)" where
  "emptyAdj nodes = fold (\<lambda>n m. m(nid n \<mapsto> [])) nodes Map.empty"

definition push_adj :: "string \<Rightarrow> string \<Rightarrow> (string \<rightharpoonup> string list) \<Rightarrow> (string \<rightharpoonup> string list)" where
  "push_adj k v m = (case m k of Some xs \<Rightarrow> m(k \<mapsto> xs @ [v]) | None \<Rightarrow> m)"

definition outEdgesOf :: "node list \<Rightarrow> edge list \<Rightarrow> (string \<rightharpoonup> string list)" where
  "outEdgesOf nodes edges = fold (\<lambda>e m. push_adj (source e) (target e) m) edges (emptyAdj nodes)"

definition inEdgesOf :: "node list \<Rightarrow> edge list \<Rightarrow> (string \<rightharpoonup> string list)" where
  "inEdgesOf nodes edges = fold (\<lambda>e m. push_adj (target e) (source e) m) edges (emptyAdj nodes)"

text \<open>\<^verbatim>\<open>m.get(k) || []\<close>; for a node id the key is always bound.\<close>

definition adj :: "(string \<rightharpoonup> string list) \<Rightarrow> string \<Rightarrow> string list" where
  "adj m k = (case m k of Some xs \<Rightarrow> xs | None \<Rightarrow> [])"

definition startNode :: node where
  "startNode =
     \<lparr>shape = ''stadium'', label = ''Start'', style = cstyle stadium,
      fillColor = cfillColor stadium, strokeColor = cstrokeColor stadium, nid = ''Start''\<rparr>"

definition stopNode :: node where
  "stopNode =
     \<lparr>shape = ''stadium'', label = ''Stop'', style = cstyle stadium,
      fillColor = ''#f8cecc'', strokeColor = ''#b85450'', nid = ''Stop''\<rparr>"

definition start_edge :: "node \<Rightarrow> edge" where
  "start_edge processNode =
     \<lparr>eid = ''e_start_'' @ nid processNode, source = ''Start'', target = nid processNode,
      elabel = [], arrowType = None\<rparr>"

definition stop_edge :: "node \<Rightarrow> edge" where
  "stop_edge processNode =
     \<lparr>eid = ''e_'' @ nid processNode @ ''_stop'', source = nid processNode, target = ''Stop'',
      elabel = [], arrowType = None\<rparr>"

definition hasStartNode :: "node list \<Rightarrow> bool" where
  "hasStartNode nodes =
     list_ex (\<lambda>n. nid n = ''Start'' \<or> toLowerCase (label n) = ''start'') nodes"

definition hasStopNode :: "node list \<Rightarrow> bool" where
  "hasStopNode nodes =
     list_ex (\<lambda>n. nid n = ''Stop'' \<or> nid n = ''End''
                 \<or> toLowerCase (label n) = ''stop'' \<or> toLowerCase (label n) = ''end'') nodes"

text \<open>
  The first part of \<^verbatim>\<open>convertToDrawio\<close>: the nodes and edges that are laid out and
  emitted, for a diagram of kind \<open>ty\<close>.
\<close>

definition convertToDrawio_graph :: "string \<Rightarrow> node list \<Rightarrow> edge list \<Rightarrow> node list \<times> edge list" where
  "convertToDrawio_graph ty nodes edges =
     (if ty = ''flowchart'' then
        (let outEdges = outEdgesOf nodes edges;
             inEdges = inEdgesOf nodes edges;
             startNodes = filter (\<lambda>n. length (adj inEdges (nid n)) = 0) nodes;
             endNodes = filter (\<lambda>n. length (adj outEdges (nid n)) = 0) nodes;
             withStart =
               (if \<not> hasStartNode nodes \<and> length startNodes > 0
                then (startNode # nodes, fold (\<lambda>p es. start_edge p # es) startNodes edges)
                else (nodes, edges));
             withStop =
               (if \<not> hasStopNode nodes \<and> length endNodes > 0
                then (fst withStart @ [stopNode], snd withStart @ map stop_edge endNodes)
                else withStart)
         in withStop)
      else (nodes, edges))"

text \<open>The same, from a parsed flow diagram as \<^verbatim>\<open>toDrawio\<close> passes it on.\<close>

definition drawio_graph :: "diagram \<Rightarrow> (node list \<times> edge list) option" where
  "drawio_graph d =
     (case body d of
        FlowBody ns es sgs \<Rightarrow> Some (convertToDrawio_graph (dtype d) ns es)
      | _ \<Rightarrow> None)"

section \<open>Level assignment\<close>

text \<open>
  The state the traversal of \<^verbatim>\<open>calculatePositions\<close> works on: the two sets and the
  map of levels, all shared by every call.
\<close>

record level_state =
  visited :: "string set"
  inStack :: "string set"
  nodeLevel :: "string \<rightharpoonup> nat"

text \<open>\<^verbatim>\<open>xs.forEach\<close> with a body that may fail to return.\<close>

fun forEach_opt :: "('a \<Rightarrow> 's \<Rightarrow> 's option) \<Rightarrow> 'a list \<Rightarrow> 's \<Rightarrow> 's option" where
  "forEach_opt f [] s = Some s"
| "forEach_opt f (x # xs) s = (case f x s of None \<Rightarrow> None | Some s' \<Rightarrow> forEach_opt f xs s')"

text \<open>
  \<^verbatim>\<open>assignLevels\<close>, with the depth of the recursion bounded by a fuel: \<open>None\<close> is a
  recursion deeper than the fuel. A comparison with an undefined level is false.
\<close>

fun assignLevels :: "nat \<Rightarrow> (string \<rightharpoonup> string list) \<Rightarrow> string \<Rightarrow> nat \<Rightarrow> level_state \<Rightarrow> level_state option" where
  "assignLevels 0 outEdges ident lv st = None"
| "assignLevels (Suc fuel) outEdges ident lv st =
     (if ident \<in> inStack st then Some st
      else if ident \<in> visited st \<and> \<not> (case nodeLevel st ident of None \<Rightarrow> False | Some l \<Rightarrow> lv > l)
      then Some st
      else
        (let st1 = (if ident \<in> visited st then st\<lparr>nodeLevel := (nodeLevel st)(ident \<mapsto> lv)\<rparr> else st);
             st2 = st1\<lparr>visited := insert ident (visited st1),
                       inStack := insert ident (inStack st1),
                       nodeLevel :=
                         (nodeLevel st1)(ident \<mapsto>
                            max (case nodeLevel st1 ident of None \<Rightarrow> 0 | Some l \<Rightarrow> l) lv)\<rparr>
         in case forEach_opt (\<lambda>childId s. assignLevels fuel outEdges childId (lv + 1) s)
                   (adj outEdges ident) st2 of
              None \<Rightarrow> None
            | Some st3 \<Rightarrow> Some (st3\<lparr>inStack := inStack st3 - {ident}\<rparr>)))"

definition rootsOf :: "node list \<Rightarrow> edge list \<Rightarrow> node list" where
  "rootsOf nodes edges =
     (let roots = filter (\<lambda>n. length (adj (inEdgesOf nodes edges) (nid n)) = 0) nodes
      in if length roots = 0 \<and> length nodes > 0 then roots @ [hd nodes] else roots)"

text \<open>
  Step 1 of \<^verbatim>\<open>calculatePositions\<close>: the traversal from every root, then level 0 for
  every node that has none. The result is the final state of the traversal and the
  completed map of levels.
\<close>

definition calculateLevels :: "nat \<Rightarrow> node list \<Rightarrow> edge list \<Rightarrow> (level_state \<times> (string \<rightharpoonup> nat)) option" where
  "calculateLevels fuel nodes edges =
     (case forEach_opt (\<lambda>root s. assignLevels fuel (outEdgesOf nodes edges) (nid root) 0 s)
             (rootsOf nodes edges)
             \<lparr>visited = {}, inStack = {}, nodeLevel = Map.empty\<rparr> of
        None \<Rightarrow> None
      | Some st \<Rightarrow>
          Some (st, fold (\<lambda>n m. if m (nid n) = None then m(nid n \<mapsto> 0) else m) nodes (nodeLevel st)))"

text \<open>
  The ids of the nodes and the end points of the edges that are laid out for the
  parse of a flow diagram text.
\<close>

definition toDrawio_ends :: "string \<Rightarrow> (string list \<times> (string \<times> string) list) option" where
  "toDrawio_ends text =
     (case parseMermaid text of
        Inl e \<Rightarrow> None
      | Inr d \<Rightarrow>
          map_option (\<lambda>g. (map nid (fst g), map (\<lambda>e. (source e, target e)) (snd g)))
                     (drawio_graph d))"

definition flow_inv :: "flow_state \<Rightarrow> bool" where
  "flow_inv st \<longleftrightarrow>
     (\<forall>p\<in>set (fnodes st). nid (snd p) = fst p)
     \<and> (\<forall>e\<in>set (fedges st). source e \<in> fst ` set (fnodes st) \<and> target e \<in> fst ` set (fnodes st))"

text \<open>
  A line that reaches the connection and node cases of the flowchart scanner: not
  blank, not a comment, not a subgraph line and not \<^verbatim>\<open>end\<close>.
\<close>

definition payload_line :: "string \<Rightarrow> bool" where
  "payload_line line \<longleftrightarrow>
     \<not> (line = [] \<or> startsWith line ''%%'') \<and> \<not> startsWith line ''subgraph'' \<and> line \<noteq> ''end''"

definition ent_ok :: "(string \<times> entity) list \<Rightarrow> bool" where
  "ent_ok m \<longleftrightarrow> (\<forall>p\<in>set m. entId (snd p) = fst p)"

definition er_inv :: "er_state \<Rightarrow> bool" where
  "er_inv st \<longleftrightarrow>
     ent_ok (entities st)
     \<and> (\<forall>r\<in>set (relationships st). rsource r \<in> fst ` set (entities st) \<and> rtarget r \<in> fst ` set (entities st))"

definition mind_inv :: "mind_state \<Rightarrow> bool" where
  "mind_inv st \<longleftrightarrow>
     (\<forall>e\<in>set (medges st). source e \<in> nid ` set (mnodes st) \<and> target e \<in> nid ` set (mnodes st))
     \<and> (\<forall>p\<in>set (nodeStack st). nid (snd p) \<in> nid ` set (mnodes st))"

text \<open>The node ids and the edge end points a parse exposes.\<close>

definition parsed_graph :: "string \<Rightarrow> (string list \<times> (string \<times> string) list) option" where
  "parsed_graph text =
     (case parseMermaid text of
        Inl e \<Rightarrow> None
      | Inr d \<Rightarrow> Some (node_ids (body d), edge_ends (body d)))"

text \<open>The nodes of a parsed flow diagram.\<close>

definition flow_nodes :: "diagram \<Rightarrow> node list" where
  "flow_nodes d = (case body d of FlowBody ns es sgs \<Rightarrow> ns | _ \<Rightarrow> [])"

text \<open>
  A line that gives the node \<open>X\<close> a shape: a connection whose source or target is \<open>X\<close>
  with an inline shape, or a standalone declaration of \<open>X\<close>.
\<close>

definition declares_shape :: "string \<Rightarrow> string \<Rightarrow> bool" where
  "declares_shape X raw \<longleftrightarrow>
     payload_line (trim raw)
     \<and> (case parseConnection (trim raw) of
          Some c \<Rightarrow> (csource c = X \<and> sourceNode c \<noteq> None) \<or> (ctarget c = X \<and> targetNode c \<noteq> None)
        | None \<Rightarrow>
            (case js_match (trim raw) nodeDefPattern of
               Some m \<Rightarrow> grp_txt m 1 = X
             | None \<Rightarrow> False))"

text \<open>
  The line that selects the dialect: the first non-empty line of the text after
  trimming and removal of the fences, trimmed and in lower case.
\<close>

definition first_line :: "string \<Rightarrow> string option" where
  "first_line text =
     (case filter (\<lambda>l. trim l \<noteq> []) (split_nl (parse_clean text)) of
        [] \<Rightarrow> None
      | l # _ \<Rightarrow> Some (toLowerCase (trim l)))"

text \<open>The kind string of the dialect that a first line selects.\<close>

definition kind_of :: "string \<Rightarrow> string" where
  "kind_of fl =
     (if startsWith fl ''flowchart'' \<or> startsWith fl ''graph'' then ''flowchart''
      else if startsWith fl ''sequencediagram'' then ''sequence''
      else if startsWith fl ''erdiagram'' then ''erDiagram''
      else if startsWith fl ''mindmap'' then ''mindmap''
      else ''flowchart'')"

text \<open>A line with two plain arrows.\<close>

definition chained :: "string \<Rightarrow> bool" where
  "chained l \<longleftrightarrow> (\<exists>x y z. l = x @ ''-->'' @ y @ ''-->'' @ z)"

text \<open>
  The ids that can be reached from a root of the traversal along the lists of
  outgoing edges.
\<close>

definition reached :: "node list \<Rightarrow> edge list \<Rightarrow> string set" where
  "reached nodes edges =
     {b. \<exists>r\<in>set (rootsOf nodes edges).
           (nid r, b) \<in> {(x, y). y \<in> set (adj (outEdgesOf nodes edges) x)}\<^sup>*}"

section \<open>Properties of the matcher\<close>

lemma ms_Lit: "ms (Lit A) (b, s, c) = (if take (length A) s = A then [(rev A @ b, drop (length A) s, c)] else [])"
proof (induction A arbitrary: b s)
  case Nil
  then show ?case by simp
next
  case (Cons a A)
  show ?case
  proof (cases s)
    case Nil
    then show ?thesis by simp
  next
    case (Cons y ys)
    then show ?thesis using Cons.IH[of "y # b" ys] by auto
  qed
qed

lemma ms_Star_Cls:
  "ms (Star (Cls P)) (b, s, c) =
     map (\<lambda>k. (rev (take k s) @ b, drop k s, c)) (rev [0..<Suc (length (takeWhile P s))])"
proof (induction s arbitrary: b)
  case Nil
  then show ?case by simp
next
  case (Cons y ys)
  show ?case
  proof (cases "P y")
    case False
    then show ?thesis by simp
  next
    case True
    have "map (\<lambda>k. (rev (take k (y # ys)) @ b, drop k (y # ys), c)) (rev [0..<Suc (Suc n)])
        = map (\<lambda>k. (rev (take k ys) @ y # b, drop k ys, c)) (rev [0..<Suc n]) @ [(b, y # ys, c)]" for n
      by (induction n) auto
    with True Cons.IH[of "y # b"] show ?thesis by simp
  qed
qed

lemma ms_Plus_Cls:
  "ms (Plus (Cls P)) (b, s, c) =
     map (\<lambda>k. (rev (take k s) @ b, drop k s, c)) (rev [1..<Suc (length (takeWhile P s))])"
proof (cases s)
  case Nil
  then show ?thesis by (simp add: Plus_def)
next
  case (Cons y ys)
  show ?thesis
  proof (cases "P y")
    case False
    then show ?thesis using Cons by (simp add: Plus_def)
  next
    case True
    have "map (\<lambda>k. (rev (take k (y # ys)) @ b, drop k (y # ys), c)) (rev [1..<Suc (Suc n)])
        = map (\<lambda>k. (rev (take k ys) @ y # b, drop k ys, c)) (rev [0..<Suc n])" for n
      by (induction n) auto
    with True Cons show ?thesis by (simp add: Plus_def ms_Star_Cls del: ms.simps(6))
  qed
qed

lemma takeWhile_none_of:
  assumes "\<forall>x\<in>set L. x \<notin> set ex" "C \<noteq> []" "hd C \<in> set ex"
  shows "takeWhile (none_of ex) (L @ C) = L"
proof -
  from assms(2,3) obtain y ys where C: "C = y # ys" "y \<in> set ex" by (cases C) auto
  have "\<forall>x\<in>set L. none_of ex x" using assms(1) by (simp add: none_of_def)
  moreover have "\<not> none_of ex y" using C by (simp add: none_of_def)
  ultimately show ?thesis using C by (simp add: takeWhile_append2)
qed

lemma ms_Seq_hd:
  "ms r1 st = x # xs \<Longrightarrow> ms r2 x = y # ys \<Longrightarrow> \<exists>zs. ms (Seq r1 r2) st = y # zs"
  by simp

lemma ms_Grp_Plus_Cls_hd:
  assumes "L \<noteq> []" "takeWhile P (L @ C) = L"
  shows "\<exists>zs. ms (Grp n (Plus (Cls P))) (b, L @ C, c) = (rev L @ b, C, (n, L) # c) # zs"
proof -
  obtain k where k: "length L = Suc k" using assms(1) by (cases L) auto
  have r: "rev [1..<Suc (Suc k)] = Suc k # rev [1..<Suc k]" by simp
  have "ms (Plus (Cls P)) (b, L @ C, c) =
          (rev L @ b, C, c) # map (\<lambda>k. (rev (take k (L @ C)) @ b, drop k (L @ C), c)) (rev [1..<Suc k])"
    unfolding ms_Plus_Cls assms(2) k r using k by simp
  then show ?thesis by simp
qed

lemma ms_delim:
  assumes "L \<noteq> []" "\<forall>x\<in>set L. x \<notin> set ex" "C \<noteq> []" "hd C \<in> set ex"
  shows "\<exists>rest. ms (Seqs [Bol, Lit opn, Grp 1 (Plus (Cls (none_of ex))), Lit C, Eol]) ([], opn @ L @ C, [])
            = (rev (opn @ L @ C), [], [(1, L)]) # rest"
proof -
  have tw: "takeWhile (none_of ex) (L @ C) = L"
    using assms(2-4) by (rule takeWhile_none_of)
  have 1: "ms (Seq (Lit C) Eol) (rev L @ rev opn, C, [(1, L)]) = [(rev (opn @ L @ C), [], [(1, L)])]"
    by (simp add: ms_Lit)
  obtain zs where 2: "ms (Grp 1 (Plus (Cls (none_of ex)))) (rev opn, L @ C, []) = (rev L @ rev opn, C, [(1, L)]) # zs"
    using ms_Grp_Plus_Cls_hd[OF assms(1) tw] by blast
  obtain zs' where 3: "ms (Seq (Grp 1 (Plus (Cls (none_of ex)))) (Seq (Lit C) Eol)) (rev opn, L @ C, [])
       = (rev (opn @ L @ C), [], [(1, L)]) # zs'"
    using ms_Seq_hd[OF 2 1] by blast
  have 4: "ms (Lit opn) ([], opn @ L @ C, []) = [(rev opn, L @ C, [])]"
    by (simp add: ms_Lit)
  obtain zs'' where 5: "ms (Seq (Lit opn) (Seq (Grp 1 (Plus (Cls (none_of ex)))) (Seq (Lit C) Eol))) ([], opn @ L @ C, [])
       = (rev (opn @ L @ C), [], [(1, L)]) # zs''"
    using ms_Seq_hd[OF 4 3] by blast
  have 6: "ms Bol ([], opn @ L @ C, []) = [([], opn @ L @ C, [])]" by simp
  show ?thesis using ms_Seq_hd[OF 6 5] by simp
qed

lemma rx_search_Bol_later: "b \<noteq> [] \<Longrightarrow> rx_search (Seq Bol r) b s = None"
  by (induction s arbitrary: b) auto

lemma js_match_delim:
  assumes "L \<noteq> []" "\<forall>x\<in>set L. x \<notin> set ex" "C \<noteq> []" "hd C \<in> set ex"
  shows "js_match (opn @ L @ C) (Seqs [Bol, Lit opn, Grp 1 (Plus (Cls (none_of ex))), Lit C, Eol])
           = Some \<lparr>mindex = 0, mtext = opn @ L @ C, mcaps = [(1, L)]\<rparr>"
proof -
  obtain rest where m: "ms (Seqs [Bol, Lit opn, Grp 1 (Plus (Cls (none_of ex))), Lit C, Eol]) ([], opn @ L @ C, [])
            = (rev (opn @ L @ C), [], [(1, L)]) # rest"
    using ms_delim[OF assms] by blast
  obtain x xs where s: "opn @ L @ C = x # xs" using assms(1) by (cases "opn @ L @ C") auto
  show ?thesis
    unfolding js_match_def s using m[unfolded s] by (simp del: ms.simps Seqs.simps)
qed

lemma js_match_Bol_Lit_fail:
  assumes "\<not> startsWith s opn"
  shows "js_match s (Seqs (Bol # Lit opn # r # rs)) = None"
proof (cases s)
  case Nil
  then show ?thesis using assms by (simp add: js_match_def ms_Lit startsWith_def)
next
  case (Cons x xs)
  then show ?thesis using assms
    by (simp add: js_match_def ms_Lit startsWith_def rx_search_Bol_later del: Lit.simps)
qed

section \<open>Shape precedence\<close>

lemma stadium_match:
  assumes "L \<noteq> []" "CHR '']'' \<notin> set L"
  shows "js_match (''(['' @ L @ ''])'') (pattern stadium) = Some \<lparr>mindex = 0, mtext = ''(['' @ L @ ''])'', mcaps = [(1, L)]\<rparr>"
  unfolding stadium_def using js_match_delim[of L "'']''" "''])''" "''([''"] assms by auto

lemma circle_match:
  assumes "L \<noteq> []" "CHR '')'' \<notin> set L"
  shows "js_match (''(('' @ L @ ''))'') (pattern circle) = Some \<lparr>mindex = 0, mtext = ''(('' @ L @ ''))'', mcaps = [(1, L)]\<rparr>"
  unfolding circle_def using js_match_delim[of L "'')''" "''))''" "''((''"] assms by auto

lemma subroutine_match:
  assumes "L \<noteq> []" "CHR '']'' \<notin> set L"
  shows "js_match (''[['' @ L @ '']]'') (pattern subroutine) = Some \<lparr>mindex = 0, mtext = ''[['' @ L @ '']]'', mcaps = [(1, L)]\<rparr>"
  unfolding subroutine_def using js_match_delim[of L "'']''" "'']]''" "''[[''"] assms by auto

lemma stadium_fail: "\<not> startsWith s ''(['' \<Longrightarrow> js_match s (pattern stadium) = None"
  unfolding stadium_def by (simp add: js_match_Bol_Lit_fail del: Seqs.simps Lit.simps)

lemma circle_fail: "\<not> startsWith s ''(('' \<Longrightarrow> js_match s (pattern circle) = None"
  unfolding circle_def by (simp add: js_match_Bol_Lit_fail del: Seqs.simps Lit.simps)

lemma firstShape_None:
  "\<forall>e\<in>set tbl. js_match s (pattern (snd e)) = None \<Longrightarrow> firstShape tbl s = None"
  by (induction tbl) auto

text \<open>
  Claim C5, as the code has it. For every non-empty label without a closing bracket,
  \<^verbatim>\<open>([Label])\<close> parses as a stadium and \<^verbatim>\<open>[[Label]]\<close> as a subroutine; for every
  non-empty label without a closing parenthesis, \<^verbatim>\<open>((Label))\<close> parses as a circle; in
  each case the label is the trimmed text between the delimiters, and so the shape is
  neither roundedRect nor rectangle. A fragment that no pattern of the table matches
  is a rectangle labelled with the trimmed fragment.
\<close>

theorem parseNodeShape_precedence:
  "(L \<noteq> [] \<and> CHR '']'' \<notin> set L \<longrightarrow>
      shape (parseNodeShape (''(['' @ L @ ''])'')) = ''stadium''
      \<and> label (parseNodeShape (''(['' @ L @ ''])'')) = trim L)
   \<and> (L \<noteq> [] \<and> CHR '')'' \<notin> set L \<longrightarrow>
      shape (parseNodeShape (''(('' @ L @ ''))'')) = ''circle''
      \<and> label (parseNodeShape (''(('' @ L @ ''))'')) = trim L)
   \<and> (L \<noteq> [] \<and> CHR '']'' \<notin> set L \<longrightarrow>
      shape (parseNodeShape (''[['' @ L @ '']]'')) = ''subroutine''
      \<and> label (parseNodeShape (''[['' @ L @ '']]'')) = trim L)
   \<and> ((\<forall>e\<in>set SHAPE_MAPPINGS. js_match s (pattern (snd e)) = None) \<longrightarrow>
      parseNodeShape s =
        \<lparr>shape = ''rectangle'', label = trim s, style = cstyle rectangle,
         fillColor = cfillColor rectangle, strokeColor = cstrokeColor rectangle\<rparr>)"
proof (intro conjI impI)
  assume a: "L \<noteq> [] \<and> CHR '']'' \<notin> set L"
  from a have m: "js_match (''(['' @ L @ ''])'') (pattern stadium) = Some \<lparr>mindex = 0, mtext = ''(['' @ L @ ''])'', mcaps = [(1, L)]\<rparr>"
    using stadium_match by blast
  show "shape (parseNodeShape (''(['' @ L @ ''])'')) = ''stadium''"
    using m by (simp add: parseNodeShape_def SHAPE_MAPPINGS_def)
  show "label (parseNodeShape (''(['' @ L @ ''])'')) = trim L"
    using m by (simp add: parseNodeShape_def SHAPE_MAPPINGS_def grp_txt_def grp_def)
next
  assume a: "L \<noteq> [] \<and> CHR '')'' \<notin> set L"
  have f: "js_match (''(('' @ L @ ''))'') (pattern stadium) = None"
    by (rule stadium_fail) (simp add: startsWith_def)
  from a have m: "js_match (''(('' @ L @ ''))'') (pattern circle) = Some \<lparr>mindex = 0, mtext = ''(('' @ L @ ''))'', mcaps = [(1, L)]\<rparr>"
    using circle_match by blast
  show "shape (parseNodeShape (''(('' @ L @ ''))'')) = ''circle''"
    using m f by (simp add: parseNodeShape_def SHAPE_MAPPINGS_def)
  show "label (parseNodeShape (''(('' @ L @ ''))'')) = trim L"
    using m f by (simp add: parseNodeShape_def SHAPE_MAPPINGS_def grp_txt_def grp_def)
next
  assume a: "L \<noteq> [] \<and> CHR '']'' \<notin> set L"
  have f1: "js_match (''[['' @ L @ '']]'') (pattern stadium) = None"
    by (rule stadium_fail) (simp add: startsWith_def)
  have f2: "js_match (''[['' @ L @ '']]'') (pattern circle) = None"
    by (rule circle_fail) (simp add: startsWith_def)
  from a have m: "js_match (''[['' @ L @ '']]'') (pattern subroutine) = Some \<lparr>mindex = 0, mtext = ''[['' @ L @ '']]'', mcaps = [(1, L)]\<rparr>"
    using subroutine_match by blast
  show "shape (parseNodeShape (''[['' @ L @ '']]'')) = ''subroutine''"
    using m f1 f2 by (simp add: parseNodeShape_def SHAPE_MAPPINGS_def)
  show "label (parseNodeShape (''[['' @ L @ '']]'')) = trim L"
    using m f1 f2 by (simp add: parseNodeShape_def SHAPE_MAPPINGS_def grp_txt_def grp_def)
next
  assume "\<forall>e\<in>set SHAPE_MAPPINGS. js_match s (pattern (snd e)) = None"
  then have "firstShape SHAPE_MAPPINGS s = None"
    by (rule firstShape_None)
  then show "parseNodeShape s =
        \<lparr>shape = ''rectangle'', label = trim s, style = cstyle rectangle,
         fillColor = cfillColor rectangle, strokeColor = cstrokeColor rectangle\<rparr>"
    by (simp add: parseNodeShape_def)
qed

text \<open>The theorem at the label \<open>Label\<close> and at the fragment \<open> a-b \<close>.\<close>

theorem parseNodeShape_precedence_witness:
  "shape (parseNodeShape ''([Label])'') = ''stadium''
   \<and> label (parseNodeShape ''([Label])'') = ''Label''
   \<and> shape (parseNodeShape ''((Label))'') = ''circle''
   \<and> shape (parseNodeShape ''[[Label]]'') = ''subroutine''
   \<and> parseNodeShape '' a-b '' =
        \<lparr>shape = ''rectangle'', label = ''a-b'', style = cstyle rectangle,
         fillColor = cfillColor rectangle, strokeColor = cstrokeColor rectangle\<rparr>"
proof -
  have h: "\<forall>e\<in>set SHAPE_MAPPINGS. js_match '' a-b '' (pattern (snd e)) = None"
    by code_simp
  have t: "trim ''Label'' = ''Label''" "trim '' a-b '' = ''a-b''" by code_simp+
  show ?thesis
    using parseNodeShape_precedence[of "''Label''" "'' a-b ''"] h t by simp
qed

text \<open>
  With the empty label the stadium pattern needs a character it does not get, and the
  rounded rectangle takes \<^verbatim>\<open>([])\<close> with the label \<^verbatim>\<open>[]\<close>.
\<close>

theorem parseNodeShape_empty_label_counterexample:
  "shape (parseNodeShape (''(['' @ [] @ ''])'')) = ''roundedRect''"
  by code_simp

section \<open>Empty input and terminal synthesis\<close>

lemma trim_blank: "\<forall>c\<in>set s. is_ws c \<Longrightarrow> trim s = []"
  by (auto simp: trim_def dest: set_dropWhileD)

lemma parse_clean_blank: "\<forall>c\<in>set s. is_ws c \<Longrightarrow> parse_clean s = []"
  by (simp add: parse_clean_def trim_blank startsWith_def)

text \<open>
  Claim C7. On an input made of white space only (the empty input included) the parse
  fails with the empty-diagram error and yields no diagram, while the validator
  returns its report with both counts at zero; the validate command, which parses
  again for the counts, leaves them at zero as well.
\<close>

theorem empty_input:
  assumes "\<forall>c\<in>set s. is_ws c"
  shows "parseMermaid s = Inl EmptyDiagram
         \<and> nodeCount (validateMermaid s) = 0 \<and> edgeCount (validateMermaid s) = 0
         \<and> nodeCount (validate_command s) = 0 \<and> edgeCount (validate_command s) = 0"
proof -
  have p: "parseMermaid s = Inl EmptyDiagram"
    using assms by (simp add: parseMermaid_def parse_clean_blank trim_def)
  have v: "nodeCount (validateMermaid s) = 0" "edgeCount (validateMermaid s) = 0"
    by (simp_all add: validateMermaid_def Let_def)
  show ?thesis using p v by (simp add: validate_command_def)
qed

text \<open>The theorem at a blank text of two lines, and at the empty text.\<close>

theorem empty_input_witness:
  "parseMermaid ('' '' @ [nl, CHR 0x09] @ ''  '') = Inl EmptyDiagram
   \<and> nodeCount (validateMermaid ('' '' @ [nl, CHR 0x09] @ ''  '')) = 0
   \<and> edgeCount (validateMermaid ('' '' @ [nl, CHR 0x09] @ ''  '')) = 0
   \<and> parseMermaid [] = Inl EmptyDiagram"
proof -
  have h: "\<forall>c\<in>set ('' '' @ [nl, CHR 0x09] @ ''  ''). is_ws c"
    by (simp add: is_ws_def nl_def)
  show ?thesis using empty_input[OF h] empty_input[of "[]"] by simp
qed

lemma emptyAdj_fold:
  "fold (\<lambda>n m. m(nid n \<mapsto> [])) nodes m0 k = (if k \<in> nid ` set nodes then Some [] else m0 k)"
  by (induction nodes arbitrary: m0) auto

lemma emptyAdj_apply: "emptyAdj nodes k = (if k \<in> nid ` set nodes then Some [] else None)"
  by (simp add: emptyAdj_def emptyAdj_fold)

lemma fold_push_in:
  "fold (\<lambda>e m. push_adj (target e) (source e) m) edges m k =
     (case m k of None \<Rightarrow> None | Some xs \<Rightarrow> Some (xs @ map source [e\<leftarrow>edges. target e = k]))"
  by (induction edges arbitrary: m) (auto simp: push_adj_def split: option.splits)

lemma fold_push_out:
  "fold (\<lambda>e m. push_adj (source e) (target e) m) edges m k =
     (case m k of None \<Rightarrow> None | Some xs \<Rightarrow> Some (xs @ map target [e\<leftarrow>edges. source e = k]))"
  by (induction edges arbitrary: m) (auto simp: push_adj_def split: option.splits)

lemma adj_inEdgesOf:
  "adj (inEdgesOf nodes edges) k =
     (if k \<in> nid ` set nodes then map source [e\<leftarrow>edges. target e = k] else [])"
  by (simp add: adj_def inEdgesOf_def fold_push_in emptyAdj_apply)

lemma adj_outEdgesOf:
  "adj (outEdgesOf nodes edges) k =
     (if k \<in> nid ` set nodes then map target [e\<leftarrow>edges. source e = k] else [])"
  by (simp add: adj_def outEdgesOf_def fold_push_out emptyAdj_apply)

lemma startNodes_eq:
  "filter (\<lambda>n. length (adj (inEdgesOf nodes edges) (nid n)) = 0) nodes =
     [n\<leftarrow>nodes. \<forall>e\<in>set edges. target e \<noteq> nid n]"
  by (rule filter_cong) (auto simp: adj_inEdgesOf filter_empty_conv)

lemma endNodes_eq:
  "filter (\<lambda>n. length (adj (outEdgesOf nodes edges) (nid n)) = 0) nodes =
     [n\<leftarrow>nodes. \<forall>e\<in>set edges. source e \<noteq> nid n]"
  by (rule filter_cong) (auto simp: adj_outEdgesOf filter_empty_conv)

lemma fold_unshift: "fold (\<lambda>p es. f p # es) xs ys = rev (map f xs) @ ys"
  by (induction xs arbitrary: ys) auto

lemma lower_Start: "toLowerCase ''Start'' = ''start''" "toLowerCase ''Stop'' = ''stop''" "toLowerCase ''End'' = ''end''"
  by code_simp+

lemma no_terminal_names:
  assumes "\<forall>n\<in>set nodes. toLowerCase (nid n) \<notin> {''start'', ''stop'', ''end''}
                          \<and> toLowerCase (label n) \<notin> {''start'', ''stop'', ''end''}"
  shows "\<not> hasStartNode nodes" "\<not> hasStopNode nodes"
  using assms lower_Start by (auto simp: hasStartNode_def hasStopNode_def list_ex_iff)

text \<open>
  Claim C1, as the code has it. When no node of a flow diagram has the id or the label
  Start, Stop or End in any case, the graph handed to layout is the parsed one with, if
  some node has no incoming edge, a Start stadium node put first and an edge from it to
  every such node, and, if some node has no outgoing edge, a Stop node put last and an
  edge to it from every such node. For the text \<^verbatim>\<open>flowchart TD\<close>, \<^verbatim>\<open>X[Go] --> Y[Stop2]\<close>
  both are added: \<^verbatim>\<open>Stop2\<close> is not the label \<^verbatim>\<open>stop\<close>, so nothing holds the Stop node
  back.
\<close>

theorem terminal_synthesis:
  "((\<forall>n\<in>set nodes. toLowerCase (nid n) \<notin> {''start'', ''stop'', ''end''}
                     \<and> toLowerCase (label n) \<notin> {''start'', ''stop'', ''end''}) \<longrightarrow>
      convertToDrawio_graph ''flowchart'' nodes edges =
        ((if [n\<leftarrow>nodes. \<forall>e\<in>set edges. target e \<noteq> nid n] = [] then [] else [startNode])
           @ nodes @
         (if [n\<leftarrow>nodes. \<forall>e\<in>set edges. source e \<noteq> nid n] = [] then [] else [stopNode]),
         rev (map start_edge [n\<leftarrow>nodes. \<forall>e\<in>set edges. target e \<noteq> nid n])
           @ edges @
         map stop_edge [n\<leftarrow>nodes. \<forall>e\<in>set edges. source e \<noteq> nid n]))
   \<and> toDrawio_ends (''flowchart TD'' @ [nl] @ ''X[Go] --> Y[Stop2]'') =
        Some ([''Start'', ''X'', ''Y'', ''Stop''],
              [(''Start'', ''X''), (''X'', ''Y''), (''Y'', ''Stop'')])"
proof (intro conjI impI)
  assume h: "\<forall>n\<in>set nodes. toLowerCase (nid n) \<notin> {''start'', ''stop'', ''end''}
                          \<and> toLowerCase (label n) \<notin> {''start'', ''stop'', ''end''}"
  show "convertToDrawio_graph ''flowchart'' nodes edges =
        ((if [n\<leftarrow>nodes. \<forall>e\<in>set edges. target e \<noteq> nid n] = [] then [] else [startNode])
           @ nodes @
         (if [n\<leftarrow>nodes. \<forall>e\<in>set edges. source e \<noteq> nid n] = [] then [] else [stopNode]),
         rev (map start_edge [n\<leftarrow>nodes. \<forall>e\<in>set edges. target e \<noteq> nid n])
           @ edges @
         map stop_edge [n\<leftarrow>nodes. \<forall>e\<in>set edges. source e \<noteq> nid n])"
    unfolding convertToDrawio_graph_def Let_def startNodes_eq endNodes_eq
    using no_terminal_names[OF h] by (simp add: fold_unshift)
next
  show "toDrawio_ends (''flowchart TD'' @ [nl] @ ''X[Go] --> Y[Stop2]'') =
        Some ([''Start'', ''X'', ''Y'', ''Stop''],
              [(''Start'', ''X''), (''X'', ''Y''), (''Y'', ''Stop'')])"
    by code_simp
qed

text \<open>The graph of two nodes and one edge, with labels Go and Stop2.\<close>

theorem terminal_synthesis_witness:
  "convertToDrawio_graph ''flowchart''
     [mk_node ''X'' (parseNodeShape ''[Go]''), mk_node ''Y'' (parseNodeShape ''[Stop2]'')]
     [\<lparr>eid = ''e1'', source = ''X'', target = ''Y'', elabel = [], arrowType = None\<rparr>] =
   ([startNode, mk_node ''X'' (parseNodeShape ''[Go]''), mk_node ''Y'' (parseNodeShape ''[Stop2]''),
     stopNode],
    [start_edge (mk_node ''X'' (parseNodeShape ''[Go]'')),
     \<lparr>eid = ''e1'', source = ''X'', target = ''Y'', elabel = [], arrowType = None\<rparr>,
     stop_edge (mk_node ''Y'' (parseNodeShape ''[Stop2]''))])"
proof -
  have h: "\<forall>n\<in>set [mk_node ''X'' (parseNodeShape ''[Go]''), mk_node ''Y'' (parseNodeShape ''[Stop2]'')].
             toLowerCase (nid n) \<notin> {''start'', ''stop'', ''end''}
             \<and> toLowerCase (label n) \<notin> {''start'', ''stop'', ''end''}"
    by code_simp
  have i: "nid (mk_node ''X'' (parseNodeShape ''[Go]'')) = ''X''"
    "nid (mk_node ''Y'' (parseNodeShape ''[Stop2]'')) = ''Y''"
    by (simp_all add: mk_node_def)
  show ?thesis
    using terminal_synthesis[of "[mk_node ''X'' (parseNodeShape ''[Go]''), mk_node ''Y'' (parseNodeShape ''[Stop2]'')]"
        "[\<lparr>eid = ''e1'', source = ''X'', target = ''Y'', elabel = [], arrowType = None\<rparr>]"] h i
    by simp
qed

text \<open>
  The claim has the Stop node held back for \<^verbatim>\<open>X[Go] --> Y[Stop2]\<close>; the nodes laid out
  are Start, X, Y and Stop.
\<close>

theorem stop_synthesized_counterexample:
  "map_option fst (toDrawio_ends (''flowchart TD'' @ [nl] @ ''X[Go] --> Y[Stop2]'')) =
     Some [''Start'', ''X'', ''Y'', ''Stop'']"
  by code_simp

section \<open>Edges and nodes of a parse\<close>

lemma map_set_fst:
  "map fst (map_set m k v) = (if k \<in> set (map fst m) then map fst m else map fst m @ [k])"
  by (induction m) force+

lemma map_set_keys: "fst ` set (map_set m k v) = insert k (fst ` set m)"
  using map_set_fst[of m k v] by (metis (no_types, lifting) insert_absorb list.set_map list.simps(15) rotate1.simps(2) set_rotate1)

lemma map_set_mem: "(k', v') \<in> set (map_set m k v) \<Longrightarrow> (k' = k \<and> v' = v) \<or> (k', v') \<in> set m"
  by (induction m) (auto split: if_splits)

lemma map_has_keys: "map_has m k \<longleftrightarrow> k \<in> fst ` set m"
  by (simp add: map_has_def map_of_eq_None_iff)

lemma upsert_ref_keys: "fst ` set (upsert_ref m i inl) = insert i (fst ` set m)"
  by (auto simp: upsert_ref_def map_set_keys map_has_keys split: option.splits)

lemma upsert_ref_mem:
  "(k, v) \<in> set (upsert_ref m i inl) \<Longrightarrow>
     (k, v) \<in> set m \<or> (k = i \<and> (inl = Some v \<or> v = default_node i))"
  by (auto simp: upsert_ref_def split: option.splits if_splits dest: map_set_mem)

lemma upsert_ref_ids:
  assumes "\<forall>p\<in>set m. nid (snd p) = fst p" "\<And>n. inl = Some n \<Longrightarrow> nid n = i"
  shows "\<forall>p\<in>set (upsert_ref m i inl). nid (snd p) = fst p"
proof
  fix p assume "p \<in> set (upsert_ref m i inl)"
  then have "(fst p, snd p) \<in> set (upsert_ref m i inl)" by simp
  from upsert_ref_mem[OF this] show "nid (snd p) = fst p"
    using assms by (auto simp: default_node_def)
qed

lemma parseConnection_ids:
  assumes "parseConnection line = Some c"
  shows "(\<forall>n. sourceNode c = Some n \<longrightarrow> nid n = csource c)
         \<and> (\<forall>n. targetNode c = Some n \<longrightarrow> nid n = ctarget c)"
  using assms
  by (auto simp: parseConnection_def Let_def mk_node_def split: option.splits if_splits)

lemma flow_step_other:
  assumes "\<not> payload_line (trim raw)"
  shows "fnodes (flow_step raw st) = fnodes st" "fedges (flow_step raw st) = fedges st"
proof -
  consider "trim raw = [] \<or> startsWith (trim raw) ''%%''"
    | "\<not> (trim raw = [] \<or> startsWith (trim raw) ''%%'')" "startsWith (trim raw) ''subgraph''"
    | "\<not> (trim raw = [] \<or> startsWith (trim raw) ''%%'')" "\<not> startsWith (trim raw) ''subgraph''" "trim raw = ''end''"
    using assms unfolding payload_line_def by blast
  then have "fnodes (flow_step raw st) = fnodes st \<and> fedges (flow_step raw st) = fedges st"
  proof cases
    case 1
    then show ?thesis unfolding flow_step_def Let_def by (simp only: if_True simp_thms)
  next
    case 2
    then show ?thesis unfolding flow_step_def Let_def
      by (cases "js_match (trim raw) subgraphPattern") (simp_all only: if_True if_False option.case, simp_all)
  next
    case 3
    then show ?thesis unfolding flow_step_def Let_def
      by (cases "currentSubgraph st") (simp_all only: if_True if_False option.case simp_thms, simp_all)
  qed
  then show "fnodes (flow_step raw st) = fnodes st" "fedges (flow_step raw st) = fedges st" by simp_all
qed

lemma flow_step_conn:
  assumes "payload_line (trim raw)" "parseConnection (trim raw) = Some c"
  shows "flow_step raw st =
           st\<lparr>fnodes := upsert_ref (upsert_ref (fnodes st) (csource c) (sourceNode c))
                               (ctarget c) (targetNode c),
              currentSubgraph :=
                map_option
                  (\<lambda>sg. sg\<lparr>sgnodes := push_new (push_new (sgnodes sg) (csource c)) (ctarget c)\<rparr>)
                  (currentSubgraph st),
              fedges :=
                fedges st @
                [\<lparr>eid = ''e'' @ string_of_nat (length (fedges st) + 1),
                  source = csource c, target = ctarget c, elabel = clabel c,
                  arrowType = Some (carrowType c)\<rparr>]\<rparr>"
proof -
  from assms(1) have c: "\<not> (trim raw = [] \<or> startsWith (trim raw) ''%%'')"
    "\<not> startsWith (trim raw) ''subgraph''" "trim raw \<noteq> ''end''"
    unfolding payload_line_def by blast+
  show ?thesis unfolding flow_step_def Let_def
    by (simp only: c assms(2) if_False option.case)
qed

lemma flow_step_ndef:
  assumes "payload_line (trim raw)" "parseConnection (trim raw) = None"
    "js_match (trim raw) nodeDefPattern = Some m"
  shows "flow_step raw st =
           st\<lparr>fnodes := map_set (fnodes st) (grp_txt m 1)
                                (mk_node (grp_txt m 1) (parseNodeShape (grp_txt m 2))),
              currentSubgraph :=
                map_option (\<lambda>sg. sg\<lparr>sgnodes := sgnodes sg @ [grp_txt m 1]\<rparr>) (currentSubgraph st)\<rparr>"
proof -
  from assms(1) have c: "\<not> (trim raw = [] \<or> startsWith (trim raw) ''%%'')"
    "\<not> startsWith (trim raw) ''subgraph''" "trim raw \<noteq> ''end''"
    unfolding payload_line_def by blast+
  show ?thesis unfolding flow_step_def Let_def
    by (simp only: c assms(2,3) if_False option.case)
qed

lemma flow_step_none:
  assumes "payload_line (trim raw)" "parseConnection (trim raw) = None"
    "js_match (trim raw) nodeDefPattern = None"
  shows "flow_step raw st = st"
proof -
  from assms(1) have c: "\<not> (trim raw = [] \<or> startsWith (trim raw) ''%%'')"
    "\<not> startsWith (trim raw) ''subgraph''" "trim raw \<noteq> ''end''"
    unfolding payload_line_def by blast+
  show ?thesis unfolding flow_step_def Let_def
    by (simp only: c assms(2,3) if_False option.case)
qed

lemma flow_step_cases:
  "(fnodes (flow_step raw st) = fnodes st \<and> fedges (flow_step raw st) = fedges st)
   \<or> (\<exists>c e. parseConnection (trim raw) = Some c
          \<and> fnodes (flow_step raw st) =
              upsert_ref (upsert_ref (fnodes st) (csource c) (sourceNode c)) (ctarget c) (targetNode c)
          \<and> fedges (flow_step raw st) = fedges st @ [e]
          \<and> source e = csource c \<and> target e = ctarget c)
   \<or> (\<exists>k info. fnodes (flow_step raw st) = map_set (fnodes st) k (mk_node k info)
          \<and> fedges (flow_step raw st) = fedges st)"
proof (cases "payload_line (trim raw)")
  case False
  then show ?thesis using flow_step_other[of raw st] by simp
next
  case True
  show ?thesis
  proof (cases "parseConnection (trim raw)")
    case (Some c)
    show ?thesis unfolding flow_step_conn[OF True Some] using Some by simp
  next
    case None
    show ?thesis
    proof (cases "js_match (trim raw) nodeDefPattern")
      case (Some m)
      show ?thesis unfolding flow_step_ndef[OF True None Some] by auto
    next
      case N: None
      show ?thesis unfolding flow_step_none[OF True None N] by simp
    qed
  qed
qed

lemma flow_step_inv:
  assumes inv: "flow_inv st"
  shows "flow_inv (flow_step raw st)"
proof -
  have 0: "\<forall>p\<in>set (fnodes st). nid (snd p) = fst p"
    using inv by (simp add: flow_inv_def)
  consider
    (same) "fnodes (flow_step raw st) = fnodes st" "fedges (flow_step raw st) = fedges st"
  | (conn) c e where "parseConnection (trim raw) = Some c"
      "fnodes (flow_step raw st) =
         upsert_ref (upsert_ref (fnodes st) (csource c) (sourceNode c)) (ctarget c) (targetNode c)"
      "fedges (flow_step raw st) = fedges st @ [e]" "source e = csource c" "target e = ctarget c"
  | (ndef) k info where "fnodes (flow_step raw st) = map_set (fnodes st) k (mk_node k info)"
      "fedges (flow_step raw st) = fedges st"
    using flow_step_cases[of raw st] by blast
  then show ?thesis
  proof cases
    case same
    then show ?thesis using inv by (simp add: flow_inv_def)
  next
    case conn
    have ids: "\<And>n. sourceNode c = Some n \<Longrightarrow> nid n = csource c" "\<And>n. targetNode c = Some n \<Longrightarrow> nid n = ctarget c"
      using parseConnection_ids[OF conn(1)] by auto
    have 1: "\<forall>p\<in>set (upsert_ref (fnodes st) (csource c) (sourceNode c)). nid (snd p) = fst p"
      using 0 ids(1) by (rule upsert_ref_ids)
    have 2: "\<forall>p\<in>set (fnodes (flow_step raw st)). nid (snd p) = fst p"
      unfolding conn(2) using 1 ids(2) by (rule upsert_ref_ids)
    show ?thesis
      using inv 2 conn(3-5) by (auto simp: flow_inv_def conn(2) upsert_ref_keys)
  next
    case ndef
    then show ?thesis
      using inv by (auto simp: flow_inv_def map_set_keys mk_node_def dest!: map_set_mem)
  qed
qed

lemma flow_fold_inv: "flow_inv st \<Longrightarrow> flow_inv (fold flow_step ls st)"
  by (induction ls arbitrary: st) (auto simp: flow_step_inv)

lemma parseFlowchart_resolves:
  assumes "(a, b) \<in> set (edge_ends (body (parseFlowchart ls dir)))"
  shows "a \<in> set (node_ids (body (parseFlowchart ls dir))) \<and> b \<in> set (node_ids (body (parseFlowchart ls dir)))"
proof -
  let ?st = "fold flow_step (drop 1 ls) \<lparr>fnodes = [], fedges = [], fsubgraphs = [], currentSubgraph = None\<rparr>"
  have inv: "flow_inv ?st" by (rule flow_fold_inv) (simp add: flow_inv_def)
  have ids: "nid ` snd ` set (fnodes ?st) = fst ` set (fnodes ?st)"
    using inv by (force simp: flow_inv_def image_iff)
  from assms obtain e where "e \<in> set (fedges ?st)" "a = source e" "b = target e"
    by (auto simp: parseFlowchart_def Let_def)
  then show ?thesis using inv ids
    by (auto simp: parseFlowchart_def Let_def map_values_def flow_inv_def image_image)
qed

lemma ensure_entity_keys: "fst ` set (ensure_entity m n) = insert n (fst ` set m)"
  by (auto simp: ensure_entity_def map_set_keys map_has_keys)

lemma ensure_entity_ids: "ent_ok m \<Longrightarrow> ent_ok (ensure_entity m n)"
  by (auto simp: ent_ok_def ensure_entity_def new_entity_def dest!: map_set_mem)

lemma push_attribute_keys: "fst ` set (push_attribute m n a) = fst ` set m"
  by (auto simp: push_attribute_def map_set_keys split: option.splits dest!: map_of_SomeD intro: rev_image_eqI)

lemma push_attribute_ids: "ent_ok m \<Longrightarrow> ent_ok (push_attribute m n a)"
  by (auto simp: ent_ok_def push_attribute_def split: option.splits dest!: map_set_mem map_of_SomeD)

lemma er_rest_inv:
  assumes "er_inv st"
  shows "er_inv (er_rest line st)"
proof (cases "js_match line relPattern")
  case (Some m)
  then show ?thesis using assms
    by (auto simp: er_rest_def er_inv_def ensure_entity_keys ensure_entity_ids)
next
  case None
  then show ?thesis using assms
    by (cases "js_match line singleLineAttr")
       (auto simp: er_rest_def er_inv_def ensure_entity_keys ensure_entity_ids
                   push_attribute_keys push_attribute_ids)
qed

lemma er_inv_cursor [simp]: "er_inv (st\<lparr>inEntityBlock := x, currentEntity := y\<rparr>) = er_inv st"
  by (simp add: er_inv_def)

lemma er_step_inv:
  assumes "er_inv st"
  shows "er_inv (er_step raw st)"
proof (cases "trim raw = [] \<or> startsWith (trim raw) ''%%'' \<or> trim raw = ''}''")
  case True
  then show ?thesis using assms by (auto simp: er_step_def Let_def)
next
  case False
  show ?thesis
  proof (cases "js_match (trim raw) entityBlockStart")
    case (Some m)
    then show ?thesis using assms False
      by (auto simp: er_step_def Let_def er_inv_def ensure_entity_keys ensure_entity_ids)
  next
    case None
    have a: "er_inv (st\<lparr>entities := push_attribute (entities st) cur at\<rparr>)" for cur at
      using assms by (auto simp: er_inv_def push_attribute_keys push_attribute_ids)
    show ?thesis using None False a er_rest_inv[OF assms]
      by (auto simp: er_step_def Let_def split: option.splits)
  qed
qed

lemma er_fold_inv: "er_inv st \<Longrightarrow> er_inv (fold er_step ls st)"
  by (induction ls arbitrary: st) (auto simp: er_step_inv)

lemma parseERDiagram_resolves:
  assumes "(a, b) \<in> set (edge_ends (body (parseERDiagram ls)))"
  shows "a \<in> set (node_ids (body (parseERDiagram ls))) \<and> b \<in> set (node_ids (body (parseERDiagram ls)))"
proof -
  let ?st = "fold er_step (drop 1 ls) \<lparr>entities = [], relationships = [], currentEntity = None, inEntityBlock = False\<rparr>"
  have inv: "er_inv ?st" by (rule er_fold_inv) (simp add: er_inv_def ent_ok_def)
  have ids: "entId ` snd ` set (entities ?st) = fst ` set (entities ?st)"
    using inv by (force simp: er_inv_def ent_ok_def image_iff)
  from assms obtain r where "r \<in> set (relationships ?st)" "a = rsource r" "b = rtarget r"
    by (auto simp: parseERDiagram_def Let_def)
  then show ?thesis using inv ids
    by (auto simp: parseERDiagram_def Let_def map_values_def er_inv_def image_image)
qed

lemma mind_step_inv:
  assumes "mind_inv st"
  shows "mind_inv (mind_step raw st)"
proof (cases "trim raw = []")
  case True
  then show ?thesis using assms by (simp add: mind_step_def)
next
  case False
  show ?thesis
  proof (cases "js_match raw nonSpace")
    case None
    then show ?thesis using assms False by (simp add: mind_step_def)
  next
    case (Some im)
    show ?thesis
    proof (cases "if mindex im div 2 > 0 then map_of (nodeStack st) (mindex im div 2 - 1) else None")
      case None
      then show ?thesis using assms False Some
        by (auto simp: mind_step_def Let_def mind_inv_def)
    next
      case (Some parent)
      then have "(mindex im div 2 - 1, parent) \<in> set (nodeStack st)"
        by (auto split: if_splits dest: map_of_SomeD)
      then have "nid parent \<in> nid ` set (mnodes st)"
        using assms by (force simp: mind_inv_def)
      then show ?thesis using assms False Some \<open>js_match raw nonSpace = Some im\<close>
        by (auto simp: mind_step_def Let_def mind_inv_def)
    qed
  qed
qed

lemma mind_fold_inv: "mind_inv st \<Longrightarrow> mind_inv (fold mind_step ls st)"
  by (induction ls arbitrary: st) (auto simp: mind_step_inv)

lemma parseMindmap_resolves:
  assumes "(a, b) \<in> set (edge_ends (body (parseMindmap ls)))"
  shows "a \<in> set (node_ids (body (parseMindmap ls))) \<and> b \<in> set (node_ids (body (parseMindmap ls)))"
proof -
  let ?st = "fold mind_step (drop 1 ls) \<lparr>mnodes = [], medges = [], nodeStack = [], nodeId = 0\<rparr>"
  have inv: "mind_inv ?st" by (rule mind_fold_inv) (simp add: mind_inv_def)
  from assms obtain e where "e \<in> set (medges ?st)" "a = source e" "b = target e"
    by (auto simp: parseMindmap_def Let_def)
  then show ?thesis using inv
    by (auto simp: parseMindmap_def Let_def mind_inv_def)
qed

lemma parseMermaid_cases:
  assumes "parseMermaid s = Inr d"
  shows "(\<exists>ls dir. d = parseFlowchart ls dir) \<or> (\<exists>ls. d = parseSequenceDiagram ls)
         \<or> (\<exists>ls. d = parseERDiagram ls) \<or> (\<exists>ls. d = parseMindmap ls)"
  using assms unfolding parseMermaid_def Let_def
  by (auto split: if_splits sum.splits prod.splits)

text \<open>
  Claim C2, as the code has it. For every text the parser accepts and every dialect
  but the sequence diagram (flowchart, also as the fallback, entity-relationship and
  mindmap), the two ends of every edge of the result are ids of nodes of the result.
\<close>

theorem edges_resolve:
  assumes "parseMermaid s = Inr d" "dtype d \<noteq> ''sequence''" "(a, b) \<in> set (edge_ends (body d))"
  shows "a \<in> set (node_ids (body d)) \<and> b \<in> set (node_ids (body d))"
proof -
  have ns: "dtype (parseSequenceDiagram ls) = ''sequence''" for ls
    by (simp add: parseSequenceDiagram_def Let_def)
  from parseMermaid_cases[OF assms(1)] assms(2) ns
  consider (flow) ls dir where "d = parseFlowchart ls dir"
    | (er) ls where "d = parseERDiagram ls"
    | (mind) ls where "d = parseMindmap ls"
    by blast
  then show ?thesis
  proof cases
    case flow
    then show ?thesis using assms(3) parseFlowchart_resolves by blast
  next
    case er
    then show ?thesis using assms(3) parseERDiagram_resolves by blast
  next
    case mind
    then show ?thesis using assms(3) parseMindmap_resolves by blast
  qed
qed

text \<open>The theorem at the text \<^verbatim>\<open>graph LR\<close>, \<^verbatim>\<open>A --> B\<close>.\<close>

theorem edges_resolve_witness:
  "parseMermaid (''graph LR'' @ [nl] @ ''A --> B'') = Inr (parseFlowchart [''graph LR'', ''A --> B''] (Some ''LR''))
   \<and> dtype (parseFlowchart [''graph LR'', ''A --> B''] (Some ''LR'')) \<noteq> ''sequence''
   \<and> (''A'', ''B'') \<in> set (edge_ends (body (parseFlowchart [''graph LR'', ''A --> B''] (Some ''LR''))))
   \<and> ''A'' \<in> set (node_ids (body (parseFlowchart [''graph LR'', ''A --> B''] (Some ''LR''))))
   \<and> ''B'' \<in> set (node_ids (body (parseFlowchart [''graph LR'', ''A --> B''] (Some ''LR''))))"
proof -
  have p: "parseMermaid (''graph LR'' @ [nl] @ ''A --> B'') = Inr (parseFlowchart [''graph LR'', ''A --> B''] (Some ''LR''))"
    by code_simp
  have t: "dtype (parseFlowchart [''graph LR'', ''A --> B''] (Some ''LR'')) \<noteq> ''sequence''"
    by code_simp
  have e: "(''A'', ''B'') \<in> set (edge_ends (body (parseFlowchart [''graph LR'', ''A --> B''] (Some ''LR''))))"
    by code_simp
  show ?thesis using edges_resolve[OF p t e] p t e by simp
qed

text \<open>
  A sequence diagram whose only line is a message between two participants that were
  never declared: one edge from A to B, and no node at all.
\<close>

theorem undeclared_participants_counterexample:
  "parsed_graph (''sequenceDiagram'' @ [nl] @ ''A->>B: hi'') = Some ([], [(''A'', ''B'')])"
  by code_simp

section \<open>Re-declaration in flowcharts\<close>

lemma map_of_map_set: "map_of (map_set m k v) = (map_of m)(k \<mapsto> v)"
  by (induction m) auto

lemma map_of_upsert_ref:
  "map_of (upsert_ref m i inl) X =
     (if X = i then (case inl of Some v \<Rightarrow> Some v
                     | None \<Rightarrow> (case map_of m i of Some v \<Rightarrow> Some v | None \<Rightarrow> Some (default_node i)))
      else map_of m X)"
  by (auto simp: upsert_ref_def map_of_map_set map_has_def split: option.splits)

lemma upsert_ref_fst:
  "map fst (upsert_ref m i inl) = (if i \<in> set (map fst m) then map fst m else map fst m @ [i])"
  by (auto simp: upsert_ref_def map_set_fst map_has_keys split: option.splits)

lemma flow_step_keeps:
  assumes "map_of (fnodes st) X = Some n" "\<not> declares_shape X raw"
  shows "map_of (fnodes (flow_step raw st)) X = Some n"
proof (cases "payload_line (trim raw)")
  case False
  then show ?thesis using assms(1) flow_step_other(1)[of raw st] by simp
next
  case True
  show ?thesis
  proof (cases "parseConnection (trim raw)")
    case (Some c)
    have "\<not> ((csource c = X \<and> sourceNode c \<noteq> None) \<or> (ctarget c = X \<and> targetNode c \<noteq> None))"
      using assms(2) True Some by (simp add: declares_shape_def)
    then show ?thesis
      unfolding flow_step_conn[OF True Some] using assms(1)
      by (auto simp: map_of_upsert_ref split: option.splits)
  next
    case None
    show ?thesis
    proof (cases "js_match (trim raw) nodeDefPattern")
      case (Some m)
      have "grp_txt m 1 \<noteq> X" using assms(2) True None Some by (simp add: declares_shape_def)
      then show ?thesis
        unfolding flow_step_ndef[OF True None Some] using assms(1)
        by (simp add: map_of_map_set)
    next
      case N: None
      show ?thesis unfolding flow_step_none[OF True None N] using assms(1) .
    qed
  qed
qed

lemma flow_fold_keeps:
  assumes "map_of (fnodes st) X = Some n" "\<forall>raw\<in>set ls. \<not> declares_shape X raw"
  shows "map_of (fnodes (fold flow_step ls st)) X = Some n"
  using assms by (induction ls arbitrary: st) (auto simp: flow_step_keeps)

lemma flow_step_distinct:
  assumes "distinct (map fst (fnodes st))"
  shows "distinct (map fst (fnodes (flow_step raw st)))"
  using flow_step_cases[of raw st] assms
  by (auto simp: upsert_ref_fst map_set_fst)

lemma flow_fold_distinct:
  "distinct (map fst (fnodes st)) \<Longrightarrow> distinct (map fst (fnodes (fold flow_step ls st)))"
  by (induction ls arbitrary: st) (auto simp: flow_step_distinct)

lemma filter_key_unique:
  assumes "distinct (map fst m)" "map_of m X = Some v" "\<forall>p\<in>set m. nid (snd p) = fst p"
  shows "[n\<leftarrow>map snd m. nid n = X] = [v]"
  using assms
proof (induction m)
  case Nil
  then show ?case by simp
next
  case (Cons p m)
  show ?case
  proof (cases "fst p = X")
    case True
    then have v: "snd p = v" using Cons.prems(2) by (cases p) auto
    have "X \<notin> fst ` set m" using Cons.prems(1) True by auto
    then have "[n\<leftarrow>map snd m. nid n = X] = []"
      using Cons.prems(3) by (auto simp: filter_empty_conv)
    then show ?thesis using True v Cons.prems(3) by simp
  next
    case False
    then have "map_of m X = Some v" using Cons.prems(2) by (cases p) auto
    then show ?thesis using Cons False by auto
  qed
qed

lemma shape1_line:
  "payload_line (trim ''A[Shape1] --> B'')"
  "parseConnection (trim ''A[Shape1] --> B'') =
     Some \<lparr>csource = ''A'', ctarget = ''B'', clabel = [],
           carrowType = \<lparr>atype = ''solid'', arrow = ''classic'', hasLabel = False\<rparr>,
           sourceNode =
             Some \<lparr>shape = ''rectangle'', label = ''Shape1'', style = cstyle rectangle,
                   fillColor = cfillColor rectangle, strokeColor = cstrokeColor rectangle,
                   nid = ''A''\<rparr>,
           targetNode = None\<rparr>"
  "\<not> declares_shape ''A'' ''A --> C''"
  by code_simp+

lemma bare_not_declaring:
  assumes "parseConnection (trim raw) = Some c" "sourceNode c = None" "targetNode c = None"
  shows "\<not> declares_shape X raw"
  using assms by (simp add: declares_shape_def)

lemma shape1_retained:
  assumes "\<forall>raw\<in>set (mid @ post). \<not> declares_shape ''A'' raw"
  shows "[n\<leftarrow>flow_nodes (parseFlowchart (hdr # pre @ [''A[Shape1] --> B''] @ mid @ [''A --> C''] @ post) dir).
            nid n = ''A''] =
         [\<lparr>shape = ''rectangle'', label = ''Shape1'', style = cstyle rectangle,
           fillColor = cfillColor rectangle, strokeColor = cstrokeColor rectangle, nid = ''A''\<rparr>]"
proof -
  let ?init = "\<lparr>fnodes = [], fedges = [], fsubgraphs = [], currentSubgraph = None\<rparr>"
  let ?nodeA = "\<lparr>shape = ''rectangle'', label = ''Shape1'', style = cstyle rectangle,
           fillColor = cfillColor rectangle, strokeColor = cstrokeColor rectangle, nid = ''A''\<rparr>"
  let ?st1 = "fold flow_step pre ?init"
  let ?st2 = "flow_step ''A[Shape1] --> B'' ?st1"
  let ?later = "mid @ [''A --> C''] @ post"
  let ?st3 = "fold flow_step ?later ?st2"
  have a: "map_of (fnodes ?st2) ''A'' = Some ?nodeA"
    unfolding flow_step_conn[OF shape1_line(1,2)] by (simp add: map_of_upsert_ref)
  have l: "\<forall>raw\<in>set ?later. \<not> declares_shape ''A'' raw"
    using assms shape1_line(3) by auto
  have k: "map_of (fnodes ?st3) ''A'' = Some ?nodeA"
    using a l by (rule flow_fold_keeps)
  have st3: "fold flow_step (drop 1 (hdr # pre @ [''A[Shape1] --> B''] @ mid @ [''A --> C''] @ post)) ?init = ?st3"
    by simp
  have d: "distinct (map fst (fnodes ?st3))"
    unfolding st3[symmetric] by (rule flow_fold_distinct) simp
  have i: "flow_inv ?st3"
    unfolding st3[symmetric] by (rule flow_fold_inv) (simp add: flow_inv_def)
  then have ids: "\<forall>p\<in>set (fnodes ?st3). nid (snd p) = fst p"
    by (simp add: flow_inv_def)
  have "[n\<leftarrow>map snd (fnodes ?st3). nid n = ''A''] = [?nodeA]"
    using d k ids by (rule filter_key_unique)
  moreover have "flow_nodes (parseFlowchart (hdr # pre @ [''A[Shape1] --> B''] @ mid @ [''A --> C''] @ post) dir)
                  = map snd (fnodes ?st3)"
    unfolding parseFlowchart_def Let_def st3 by (simp add: flow_nodes_def map_values_def)
  ultimately show ?thesis by simp
qed

text \<open>
  Claim C6. A node that has been declared keeps its entry through every later line
  that gives it no shape, and a connection line without inline shapes is such a line.
  So in every flowchart with the line \<^verbatim>\<open>A[Shape1] --> B\<close> and, later, the line
  \<^verbatim>\<open>A --> C\<close>, where no line after the first gives A a shape again, the one node with
  id A in the result is the rectangle labelled \<^verbatim>\<open>Shape1\<close>, not the default node
  labelled \<^verbatim>\<open>A\<close>.
\<close>

theorem bare_reference_keeps_shape:
  "(map_of (fnodes st) X = Some n \<and> (\<forall>raw\<in>set ls. \<not> declares_shape X raw) \<longrightarrow>
      map_of (fnodes (fold flow_step ls st)) X = Some n)
   \<and> (parseConnection (trim raw) = Some c \<and> sourceNode c = None \<and> targetNode c = None \<longrightarrow>
      \<not> declares_shape X raw)
   \<and> ((\<forall>raw\<in>set (mid @ post). \<not> declares_shape ''A'' raw) \<longrightarrow>
      [n\<leftarrow>flow_nodes (parseFlowchart (hdr # pre @ [''A[Shape1] --> B''] @ mid @ [''A --> C''] @ post) dir).
         nid n = ''A''] =
      [\<lparr>shape = ''rectangle'', label = ''Shape1'', style = cstyle rectangle,
        fillColor = cfillColor rectangle, strokeColor = cstrokeColor rectangle, nid = ''A''\<rparr>])"
  using flow_fold_keeps bare_not_declaring shape1_retained by blast

text \<open>
  The theorem at the two lines of the claim, under the header \<^verbatim>\<open>flowchart TD\<close>, and at
  the state in which only A is declared, as a diamond.
\<close>

theorem bare_reference_keeps_shape_witness:
  "map_of (fnodes (fold flow_step [''A --> C'']
             \<lparr>fnodes = [(''A'', mk_node ''A'' (parseNodeShape ''{Shape1}''))], fedges = [],
              fsubgraphs = [], currentSubgraph = None\<rparr>)) ''A''
     = Some (mk_node ''A'' (parseNodeShape ''{Shape1}''))
   \<and> \<not> declares_shape ''A'' ''A --> C''
   \<and> [n\<leftarrow>flow_nodes (parseFlowchart [''flowchart TD'', ''A[Shape1] --> B'', ''A --> C''] (Some ''TD'')).
         nid n = ''A''] =
      [\<lparr>shape = ''rectangle'', label = ''Shape1'', style = cstyle rectangle,
        fillColor = cfillColor rectangle, strokeColor = cstrokeColor rectangle, nid = ''A''\<rparr>]"
proof -
  have c: "parseConnection (trim ''A --> C'') =
             Some \<lparr>csource = ''A'', ctarget = ''C'', clabel = [],
                   carrowType = \<lparr>atype = ''solid'', arrow = ''classic'', hasLabel = False\<rparr>,
                   sourceNode = None, targetNode = None\<rparr>"
    by code_simp
  have n: "\<not> declares_shape ''A'' ''A --> C''"
    using bare_reference_keeps_shape[where X = "''A''" and raw = "''A --> C''"
        and c = "\<lparr>csource = ''A'', ctarget = ''C'', clabel = [],
                   carrowType = \<lparr>atype = ''solid'', arrow = ''classic'', hasLabel = False\<rparr>,
                   sourceNode = None, targetNode = None\<rparr>"] c
    by simp
  have 1: "map_of (fnodes (fold flow_step [''A --> C'']
             \<lparr>fnodes = [(''A'', mk_node ''A'' (parseNodeShape ''{Shape1}''))], fedges = [],
              fsubgraphs = [], currentSubgraph = None\<rparr>)) ''A''
     = Some (mk_node ''A'' (parseNodeShape ''{Shape1}''))"
    using bare_reference_keeps_shape[where
        st = "\<lparr>fnodes = [(''A'', mk_node ''A'' (parseNodeShape ''{Shape1}''))], fedges = [],
              fsubgraphs = [], currentSubgraph = None\<rparr>" and X = "''A''"
        and n = "mk_node ''A'' (parseNodeShape ''{Shape1}'')" and ls = "[''A --> C'']"] n
    by simp
  have 3: "[n\<leftarrow>flow_nodes (parseFlowchart [''flowchart TD'', ''A[Shape1] --> B'', ''A --> C''] (Some ''TD'')).
         nid n = ''A''] =
      [\<lparr>shape = ''rectangle'', label = ''Shape1'', style = cstyle rectangle,
        fillColor = cfillColor rectangle, strokeColor = cstrokeColor rectangle, nid = ''A''\<rparr>]"
    using bare_reference_keeps_shape[where mid = "[]" and post = "[]" and hdr = "''flowchart TD''"
        and pre = "[]" and dir = "Some ''TD''"]
    by simp
  show ?thesis using 1 n 3 by blast
qed

section \<open>Lines and trimming\<close>

lemma trim_empty_iff: "trim s = [] \<longleftrightarrow> (\<forall>c\<in>set s. is_ws c)"
proof
  assume "trim s = []"
  then have "\<forall>c\<in>set (dropWhile is_ws s). is_ws c" by (simp add: trim_def)
  then have "dropWhile is_ws s = []"
    by (metis dropWhile_eq_Nil_conv hd_dropWhile list.set_sel(1))
  then show "\<forall>c\<in>set s. is_ws c" by simp
next
  assume "\<forall>c\<in>set s. is_ws c"
  then show "trim s = []" by (auto simp: trim_def dest: set_dropWhileD)
qed

lemma trim_ws_left: "\<forall>c\<in>set w. is_ws c \<Longrightarrow> trim (w @ s) = trim s"
  by (simp add: trim_def)

lemma trim_ws_right:
  assumes "\<forall>c\<in>set w. is_ws c"
  shows "trim (s @ w) = trim s"
proof (cases "\<forall>c\<in>set s. is_ws c")
  case True
  then have "trim (s @ w) = []" "trim s = []" using assms by (auto simp: trim_empty_iff)
  then show ?thesis by simp
next
  case False
  then obtain x where x: "x \<in> set s" "\<not> is_ws x" by blast
  then have d: "dropWhile is_ws (s @ w) = dropWhile is_ws s @ w"
    by (simp add: dropWhile_append1)
  have "\<forall>c\<in>set (rev w). is_ws c" using assms by simp
  then have "dropWhile is_ws (rev w @ rev (dropWhile is_ws s)) = dropWhile is_ws (rev (dropWhile is_ws s))"
    by (metis dropWhile_append2)
  then show ?thesis by (simp add: trim_def d)
qed

lemma trim_decomp:
  "\<exists>p q. s = p @ trim s @ q \<and> (\<forall>c\<in>set p. is_ws c) \<and> (\<forall>c\<in>set q. is_ws c)"
proof -
  let ?d = "dropWhile is_ws s"
  have 1: "s = takeWhile is_ws s @ ?d" by simp
  have "rev (takeWhile is_ws (rev ?d) @ dropWhile is_ws (rev ?d)) = rev (rev ?d)"
    by (simp only: takeWhile_dropWhile_id)
  then have 2: "?d = trim s @ rev (takeWhile is_ws (rev ?d))"
    by (simp only: rev_append rev_rev_ident trim_def)
  have "s = takeWhile is_ws s @ trim s @ rev (takeWhile is_ws (rev ?d))"
    using 1 2 by metis
  moreover have "\<forall>c\<in>set (takeWhile is_ws s). is_ws c" by (auto dest: set_takeWhileD)
  moreover have "\<forall>c\<in>set (rev (takeWhile is_ws (rev ?d))). is_ws c" by (auto dest: set_takeWhileD)
  ultimately show ?thesis by blast
qed

lemma trim_ends:
  assumes "trim s \<noteq> []"
  shows "\<not> is_ws (hd (trim s))" "\<not> is_ws (last (trim s))"
proof -
  let ?d = "dropWhile is_ws s"
  have ne: "dropWhile is_ws (rev ?d) \<noteq> []" using assms by (metis rev_is_Nil_conv trim_def)
  then have "\<not> is_ws (hd (dropWhile is_ws (rev ?d)))" by (rule hd_dropWhile)
  then show "\<not> is_ws (last (trim s))" using ne by (metis last_rev trim_def)
  have dne: "?d \<noteq> []"
  proof
    assume "?d = []"
    then have "dropWhile is_ws (rev ?d) = []" by (simp only: rev.simps dropWhile.simps)
    then show False using ne by blast
  qed
  then have h: "\<not> is_ws (hd ?d)" by (rule hd_dropWhile)
  have "rev (takeWhile is_ws (rev ?d) @ dropWhile is_ws (rev ?d)) = rev (rev ?d)"
    by (simp only: takeWhile_dropWhile_id)
  then have "?d = trim s @ rev (takeWhile is_ws (rev ?d))"
    by (simp only: rev_append rev_rev_ident trim_def)
  then have "hd ?d = hd (trim s)" using assms by (metis hd_append2)
  then show "\<not> is_ws (hd (trim s))" using h by simp
qed

lemma dropWhile_self: "xs \<noteq> [] \<Longrightarrow> \<not> P (hd xs) \<Longrightarrow> dropWhile P xs = xs"
  by (cases xs) auto

lemma trim_fixed:
  assumes "s \<noteq> []" "\<not> is_ws (hd s)" "\<not> is_ws (last s)"
  shows "trim s = s"
proof -
  have a: "dropWhile is_ws s = s" using assms(1,2) by (rule dropWhile_self)
  have "dropWhile is_ws (rev s) = rev s"
    using assms(1,3) by (intro dropWhile_self) (auto simp: hd_rev)
  then show ?thesis by (simp add: trim_def a)
qed

lemma trim_idem: "trim (trim s) = trim s"
proof (cases "trim s = []")
  case True
  have "trim [] = []" by (simp add: trim_def)
  then show ?thesis using True by simp
next
  case False
  then show ?thesis using trim_ends[OF False] by (intro trim_fixed)
qed

lemma split_nl_ne [simp]: "split_nl s \<noteq> []"
  by (induction s) (auto split: list.splits)

lemma split_nl_unfold:
  "split_nl s =
     takeWhile (\<lambda>c. c \<noteq> nl) s #
     (case dropWhile (\<lambda>c. c \<noteq> nl) s of [] \<Rightarrow> [] | x # r \<Rightarrow> split_nl r)"
  by (induction s) (auto split: list.splits)

lemma hd_split_nl: "hd (split_nl s) = takeWhile (\<lambda>c. c \<noteq> nl) s"
  by (subst split_nl_unfold) simp

lemma split_nl_nlfree: "nl \<notin> set w \<Longrightarrow> split_nl (w @ t) = (w @ hd (split_nl t)) # tl (split_nl t)"
proof (induction w)
  case Nil
  then show ?case by simp
next
  case (Cons a w)
  then show ?case by (cases "split_nl (w @ t)") auto
qed

lemma split_nl_nlfree_nl: "nl \<notin> set w \<Longrightarrow> split_nl (w @ nl # t) = w # split_nl t"
  by (simp add: split_nl_nlfree)

lemma split_nl_nlfree_only: "nl \<notin> set w \<Longrightarrow> split_nl w = [w]"
  using split_nl_nlfree[of w "[]"] by simp

lemma dropWhile_nl_cases:
  obtains "dropWhile (\<lambda>c. c \<noteq> nl) s = []" | r where "dropWhile (\<lambda>c. c \<noteq> nl) s = nl # r"
proof (cases "dropWhile (\<lambda>c. c \<noteq> nl) s")
  case Nil
  then show ?thesis using that by blast
next
  case (Cons x r)
  then have "x = nl" using hd_dropWhile[of "\<lambda>c. c \<noteq> nl" s] by auto
  then show ?thesis using that Cons by blast
qed

text \<open>A line of a text, with what stands before and after it.\<close>

lemma line_context:
  "l \<in> set (split_nl s) \<Longrightarrow>
     \<exists>u v. s = u @ l @ v \<and> nl \<notin> set l \<and> (u = [] \<or> last u = nl) \<and> (v = [] \<or> hd v = nl)"
proof (induction "length s" arbitrary: s l rule: less_induct)
  case less
  let ?t = "takeWhile (\<lambda>c. c \<noteq> nl) s"
  have tfree: "nl \<notin> set ?t" by (auto dest: set_takeWhileD)
  show ?case
  proof (cases rule: dropWhile_nl_cases[of s])
    case 1
    have "split_nl s = [?t]" by (subst split_nl_unfold) (simp only: 1 list.case)
    then have "l = ?t" using less.prems by simp
    moreover have "s = [] @ ?t @ []" using 1 by (metis append_Nil append_Nil2 takeWhile_dropWhile_id)
    ultimately show ?thesis using tfree by blast
  next
    case (2 r)
    have sp: "split_nl s = ?t # split_nl r" by (subst split_nl_unfold) (simp only: 2 list.case)
    have s: "s = ?t @ nl # r" using 2 by (metis takeWhile_dropWhile_id)
    from less.prems sp have "l = ?t \<or> l \<in> set (split_nl r)" by auto
    then show ?thesis
    proof
      assume "l = ?t"
      then have "s = [] @ l @ (nl # r)" using s by simp
      then show ?thesis using tfree \<open>l = ?t\<close> by (metis list.sel(1))
    next
      assume l: "l \<in> set (split_nl r)"
      have "length r < length s" using s by (metis add_Suc_right length_Cons length_append less_add_Suc2)
      from less.hyps[OF this l] obtain u v where uv: "r = u @ l @ v" "nl \<notin> set l"
        "u = [] \<or> last u = nl" "v = [] \<or> hd v = nl" by blast
      have "s = (?t @ nl # u) @ l @ v" using s uv(1) by simp
      moreover have "last (?t @ nl # u) = nl" using uv(3) by auto
      ultimately show ?thesis using uv(2,4) by blast
    qed
  qed
qed

text \<open>The line in which a piece without a newline lies.\<close>

lemma split_nl_snoc_nl: "split_nl (u @ [nl]) = split_nl u @ [[]]"
proof (induction u)
  case Nil
  then show ?case by simp
next
  case (Cons a u)
  then show ?case by (cases "split_nl u") auto
qed

lemma piece_line:
  assumes "nl \<notin> set w"
  shows "\<exists>l\<in>set (split_nl (u @ w @ v)). \<exists>x z. l = x @ w @ z"
proof (induction "length u" arbitrary: u rule: less_induct)
  case less
  let ?t = "takeWhile (\<lambda>c. c \<noteq> nl) u"
  show ?case
  proof (cases rule: dropWhile_nl_cases[of u])
    case 1
    then have "nl \<notin> set u" by (metis (mono_tags, lifting) dropWhile_eq_Nil_conv)
    then have "nl \<notin> set (u @ w)" using assms by simp
    then have "split_nl ((u @ w) @ v) = ((u @ w) @ hd (split_nl v)) # tl (split_nl v)"
      by (rule split_nl_nlfree)
    then show ?thesis by auto
  next
    case (2 r)
    then have u: "u = ?t @ nl # r" by (metis takeWhile_dropWhile_id)
    have "nl \<notin> set ?t" by (auto dest: set_takeWhileD)
    then have "split_nl (?t @ nl # (r @ w @ v)) = ?t # split_nl (r @ w @ v)"
      by (rule split_nl_nlfree_nl)
    then have sp: "split_nl (u @ w @ v) = ?t # split_nl (r @ w @ v)"
      using u by (metis append_Cons append_assoc)
    have "length r < length u" using u by (metis add_Suc_right length_Cons length_append less_add_Suc2)
    from less[OF this] show ?thesis unfolding sp by auto
  qed
qed

lemma piece_inside:
  assumes eq: "p @ c @ q = u @ w @ v" and w: "w \<noteq> []" and h: "hd w \<notin> set p" and l: "last w \<notin> set q"
  shows "\<exists>u' v'. c = u' @ w @ v'"
proof -
  have "\<exists>t. p = u @ t \<and> t @ (c @ q) = w @ v \<or> p @ t = u \<and> c @ q = t @ (w @ v)"
    by (rule iffD1[OF append_eq_append_conv2, OF eq])
  then obtain t where t: "p = u @ t \<and> t @ (c @ q) = w @ v \<or> p @ t = u \<and> c @ q = t @ (w @ v)" ..
  have "\<exists>t1. c @ q = (t1 @ w) @ v"
  proof (cases "p = u @ t \<and> t @ (c @ q) = w @ v")
    case True
    have "t = []"
    proof (rule ccontr)
      assume ne: "t \<noteq> []"
      have "hd (t @ (c @ q)) = hd (w @ v)" using True by simp
      then have "hd t = hd w" using ne w by simp
      moreover have "hd t \<in> set t" using ne by simp
      moreover have "set t \<subseteq> set p" using True by simp
      ultimately show False using h by auto
    qed
    then have "c @ q = ([] @ w) @ v" using True by simp
    then show ?thesis by (rule exI)
  next
    case False
    then have "c @ q = (t @ w) @ v" using t by auto
    then show ?thesis by (rule exI)
  qed
  then obtain t1 where t1: "c @ q = (t1 @ w) @ v" ..
  have "\<exists>t2. c = (t1 @ w) @ t2 \<and> t2 @ q = v \<or> c @ t2 = t1 @ w \<and> q = t2 @ v"
    by (rule iffD1[OF append_eq_append_conv2, OF t1])
  then obtain t2 where t2: "c = (t1 @ w) @ t2 \<and> t2 @ q = v \<or> c @ t2 = t1 @ w \<and> q = t2 @ v" ..
  show ?thesis
  proof (cases "c = (t1 @ w) @ t2 \<and> t2 @ q = v")
    case True
    then have "c = t1 @ w @ t2" by simp
    then show ?thesis by blast
  next
    case False
    then have f: "c @ t2 = t1 @ w" "q = t2 @ v" using t2 by auto
    have "t2 = []"
    proof (rule ccontr)
      assume ne: "t2 \<noteq> []"
      have "last (c @ t2) = last (t1 @ w)" using f(1) by simp
      then have "last t2 = last w" using ne w by simp
      moreover have "last t2 \<in> set t2" using ne by simp
      moreover have "set t2 \<subseteq> set q" using f(2) by simp
      ultimately show False using l by auto
    qed
    then have "c = t1 @ w @ []" using f(1) by simp
    then show ?thesis by blast
  qed
qed

lemma line_of_piece:
  assumes "nl \<notin> set w"
  shows "last (split_nl u) @ w @ hd (split_nl v) \<in> set (split_nl (u @ w @ v))"
proof (induction "length u" arbitrary: u rule: less_induct)
  case less
  let ?t = "takeWhile (\<lambda>c. c \<noteq> nl) u"
  show ?case
  proof (cases rule: dropWhile_nl_cases[of u])
    case 1
    then have f: "nl \<notin> set u" by (metis (mono_tags, lifting) dropWhile_eq_Nil_conv)
    then have "nl \<notin> set (u @ w)" using assms by simp
    then have "split_nl ((u @ w) @ v) = ((u @ w) @ hd (split_nl v)) # tl (split_nl v)"
      by (rule split_nl_nlfree)
    moreover have "last (split_nl u) = u" using f by (simp add: split_nl_nlfree_only)
    ultimately show ?thesis by simp
  next
    case (2 r)
    then have u: "u = ?t @ nl # r" by (metis takeWhile_dropWhile_id)
    have tf: "nl \<notin> set ?t" by (auto dest: set_takeWhileD)
    then have "split_nl (?t @ nl # (r @ w @ v)) = ?t # split_nl (r @ w @ v)"
      by (rule split_nl_nlfree_nl)
    then have sp: "split_nl (u @ w @ v) = ?t # split_nl (r @ w @ v)"
      using u by (metis append_Cons append_assoc)
    have "split_nl (?t @ nl # r) = ?t # split_nl r" using tf by (rule split_nl_nlfree_nl)
    then have la: "last (split_nl u) = last (split_nl r)" using u by (metis last_ConsR split_nl_ne)
    have "length r < length u" using u by (metis add_Suc_right length_Cons length_append less_add_Suc2)
    from less[OF this] show ?thesis unfolding sp la by simp
  qed
qed

lemma lines_subset: "l \<in> set (split_nl s) \<Longrightarrow> set l \<subseteq> set s"
  using line_context[of l s] by auto

lemma last_split_nl_nl: "u \<noteq> [] \<Longrightarrow> last u = nl \<Longrightarrow> last (split_nl u) = []"
proof -
  assume "u \<noteq> []" "last u = nl"
  then have "u = butlast u @ [nl]" by (metis append_butlast_last_id)
  then have "split_nl u = split_nl (butlast u) @ [[]]" by (metis split_nl_snoc_nl)
  then show ?thesis by simp
qed

lemma trimmed_lines:
  assumes "l' \<in> set (split_nl (trim s))"
  shows "\<exists>l\<in>set (split_nl s). \<exists>a b. l = a @ l' @ b \<and> (\<forall>c\<in>set a. is_ws c) \<and> (\<forall>c\<in>set b. is_ws c)"
proof -
  obtain p q where pq: "p @ trim s @ q = s" "\<forall>c\<in>set p. is_ws c" "\<forall>c\<in>set q. is_ws c"
    using trim_decomp[of s] by metis
  obtain u v where uv: "trim s = u @ l' @ v" "nl \<notin> set l'" "u = [] \<or> last u = nl" "v = [] \<or> hd v = nl"
    using line_context[OF assms] by blast
  have s: "(p @ u) @ l' @ (v @ q) = s" using pq(1)[unfolded uv(1)] by simp
  let ?a = "last (split_nl (p @ u))" and ?b = "hd (split_nl (v @ q))"
  have mem: "?a @ l' @ ?b \<in> set (split_nl s)"
    using line_of_piece[OF uv(2), of "p @ u" "v @ q"] unfolding s by simp
  have a: "\<forall>c\<in>set ?a. is_ws c"
  proof (cases "u = []")
    case True
    have "?a \<in> set (split_nl p)" using True by simp
    then have "set ?a \<subseteq> set p" by (rule lines_subset)
    then show ?thesis using pq(2) by blast
  next
    case False
    then have "last (p @ u) = nl" using uv(3) by simp
    then have "?a = []" using False by (intro last_split_nl_nl) auto
    then show ?thesis by simp
  qed
  have b: "\<forall>c\<in>set ?b. is_ws c"
  proof (cases "v = []")
    case True
    have "?b \<in> set (split_nl q)" using True by (simp add: hd_in_set)
    then have "set ?b \<subseteq> set q" by (rule lines_subset)
    then show ?thesis using pq(3) by blast
  next
    case False
    then have "hd (v @ q) = nl" using uv(4) by simp
    then have "?b = []" using False by (cases "v @ q") (auto simp: hd_split_nl)
    then show ?thesis by simp
  qed
  show ?thesis using mem a b by blast
qed

lemma dropWhile_ws_trim:
  "dropWhile is_ws x = trim x @ rev (takeWhile is_ws (rev (dropWhile is_ws x)))"
proof -
  let ?d = "dropWhile is_ws x"
  have "rev (takeWhile is_ws (rev ?d) @ dropWhile is_ws (rev ?d)) = rev (rev ?d)"
    by (simp only: takeWhile_dropWhile_id)
  then show ?thesis by (simp only: rev_append rev_rev_ident trim_def)
qed

lemma trim_subset: "set (trim s) \<subseteq> set s"
proof -
  obtain p q where "p @ trim s @ q = s" using trim_decomp[of s] by metis
  then have "set s = set p \<union> set (trim s) \<union> set q" by (metis set_append Un_assoc)
  then show ?thesis by blast
qed

lemma trim_dropWhile: "trim (dropWhile is_ws x) = trim x"
proof -
  have "trim (takeWhile is_ws x @ dropWhile is_ws x) = trim (dropWhile is_ws x)"
    by (rule trim_ws_left) (auto dest: set_takeWhileD)
  then show ?thesis by simp
qed

text \<open>A text whose first line is not blank: its trimmed form begins with that line, trimmed.\<close>

lemma first_line_trim:
  assumes "trim (hd (split_nl s)) \<noteq> []"
  shows "\<exists>r. trim s = trim (hd (split_nl s)) @ r"
    and "trim (hd (split_nl (trim s))) = trim (hd (split_nl s))"
proof -
  let ?L = "takeWhile (\<lambda>c. c \<noteq> nl) s" and ?v = "dropWhile (\<lambda>c. c \<noteq> nl) s"
  have L: "hd (split_nl s) = ?L" by (rule hd_split_nl)
  have Lne: "trim ?L \<noteq> []" using assms L by simp
  have Lfree: "nl \<notin> set ?L" by (auto dest: set_takeWhileD)
  have s: "?L @ ?v = s" by simp
  obtain x where x: "x \<in> set ?L" "\<not> is_ws x" using Lne trim_empty_iff by blast
  have both: "(\<exists>r. trim s = trim ?L @ r) \<and> trim (hd (split_nl (trim s))) = trim ?L"
  proof (cases "\<forall>c\<in>set ?v. is_ws c")
    case True
    then have t: "trim (?L @ ?v) = trim ?L" by (rule trim_ws_right)
    have "nl \<notin> set (trim ?L)" using Lfree trim_subset by blast
    then have "hd (split_nl (trim ?L)) = trim ?L" by (simp add: split_nl_nlfree_only)
    then show ?thesis using t s by (simp add: trim_idem)
  next
    case False
    then obtain y where y: "y \<in> set ?v" "\<not> is_ws y" by blast
    have vne: "?v \<noteq> []" using y(1) by (metis empty_iff empty_set)
    then have hv: "hd ?v = nl" using hd_dropWhile[of "\<lambda>c. c \<noteq> nl" s] by simp
    let ?v2 = "rev (dropWhile is_ws (rev ?v))"
    have d1: "dropWhile is_ws (?L @ ?v) = dropWhile is_ws ?L @ ?v"
      using x by (rule dropWhile_append1)
    have "y \<in> set (rev ?v)" using y by simp
    then have d2: "dropWhile is_ws (rev ?v @ rev (dropWhile is_ws ?L)) = dropWhile is_ws (rev ?v) @ rev (dropWhile is_ws ?L)"
      using y(2) by (rule dropWhile_append1)
    have "trim (?L @ ?v) = rev (dropWhile is_ws (rev (dropWhile is_ws ?L @ ?v)))"
      unfolding trim_def d1 ..
    also have "\<dots> = rev (dropWhile is_ws (rev ?v @ rev (dropWhile is_ws ?L)))" by simp
    also have "\<dots> = dropWhile is_ws ?L @ ?v2" unfolding d2 by simp
    finally have t: "trim s = dropWhile is_ws ?L @ ?v2" using s by simp
    have v2ne: "?v2 \<noteq> []" using y by (auto simp: dropWhile_eq_Nil_conv)
    have "?v = ?v2 @ rev (takeWhile is_ws (rev ?v))"
    proof -
      have "rev (takeWhile is_ws (rev ?v) @ dropWhile is_ws (rev ?v)) = rev (rev ?v)"
        by (simp only: takeWhile_dropWhile_id)
      then show ?thesis by (simp only: rev_append rev_rev_ident)
    qed
    then have "hd ?v = hd ?v2" using v2ne by (metis hd_append2)
    then have hv2: "hd ?v2 = nl" using hv by simp
    obtain v3 where v3: "?v2 = nl # v3" using v2ne hv2 by (cases ?v2) auto
    have dfree: "nl \<notin> set (dropWhile is_ws ?L)" using Lfree by (auto dest: set_dropWhileD)
    have "split_nl (dropWhile is_ws ?L @ nl # v3) = dropWhile is_ws ?L # split_nl v3"
      using dfree by (rule split_nl_nlfree_nl)
    then have "hd (split_nl (trim s)) = dropWhile is_ws ?L" unfolding t v3 by simp
    then have 2: "trim (hd (split_nl (trim s))) = trim ?L" by (simp add: trim_dropWhile)
    have "trim s = trim ?L @ (rev (takeWhile is_ws (rev (dropWhile is_ws ?L))) @ ?v2)"
      unfolding t by (subst dropWhile_ws_trim) simp
    then show ?thesis using 2 by blast
  qed
  show "\<exists>r. trim s = trim (hd (split_nl s)) @ r" using both L by simp
  show "trim (hd (split_nl (trim s))) = trim (hd (split_nl s))" using both L by simp
qed

text \<open>The first non-blank line of a text stands after white space only.\<close>

lemma first_nonblank:
  assumes "filter (\<lambda>l. trim l \<noteq> []) (split_nl s) = L # rest"
  shows "\<exists>w s'. s = w @ s' \<and> (\<forall>c\<in>set w. is_ws c) \<and> hd (split_nl s') = L"
  using assms
proof (induction "length s" arbitrary: s rule: less_induct)
  case less
  let ?t = "takeWhile (\<lambda>c. c \<noteq> nl) s"
  show ?case
  proof (cases "trim ?t = []")
    case False
    have "split_nl s = hd (split_nl s) # tl (split_nl s)" by simp
    then have "filter (\<lambda>l. trim l \<noteq> []) (split_nl s) = ?t # filter (\<lambda>l. trim l \<noteq> []) (tl (split_nl s))"
      using False by (metis (mono_tags, lifting) filter.simps(2) hd_split_nl)
    then have "L = ?t" using less.prems by simp
    then have "s = [] @ s \<and> (\<forall>c\<in>set []. is_ws c) \<and> hd (split_nl s) = L" by (simp add: hd_split_nl)
    then show ?thesis by blast
  next
    case True
    then have tws: "\<forall>c\<in>set ?t. is_ws c" by (simp add: trim_empty_iff)
    show ?thesis
    proof (cases rule: dropWhile_nl_cases[of s])
      case 1
      have "split_nl s = [?t]" by (subst split_nl_unfold) (simp only: 1 list.case)
      then show ?thesis using less.prems True by simp
    next
      case (2 r)
      have sp: "split_nl s = ?t # split_nl r" by (subst split_nl_unfold) (simp only: 2 list.case)
      have s: "s = ?t @ nl # r" using 2 by (metis takeWhile_dropWhile_id)
      have "filter (\<lambda>l. trim l \<noteq> []) (split_nl r) = L # rest"
        using less.prems True unfolding sp by simp
      moreover have "length r < length s" using s by (metis add_Suc_right length_Cons length_append less_add_Suc2)
      ultimately obtain w s' where w: "r = w @ s'" "\<forall>c\<in>set w. is_ws c" "hd (split_nl s') = L"
        using less.hyps by blast
      have "s = (?t @ nl # w) @ s'" using s w(1) by simp
      moreover have "\<forall>c\<in>set (?t @ nl # w). is_ws c" using tws w(2) by (auto simp: is_ws_def nl_def)
      ultimately show ?thesis using w(3) by blast
    qed
  qed
qed

text \<open>
  So the first non-blank line of a trimmed text is, up to white space at its ends, the
  first non-blank line of the text.
\<close>

lemma first_nonblank_trim:
  assumes "filter (\<lambda>l. trim l \<noteq> []) (split_nl s) = L # rest"
  shows "\<exists>l1 rest1. filter (\<lambda>l. trim l \<noteq> []) (split_nl (trim s)) = l1 # rest1 \<and> trim l1 = trim L"
proof -
  obtain w s' where w: "s = w @ s'" "\<forall>c\<in>set w. is_ws c" "hd (split_nl s') = L"
    using first_nonblank[OF assms] by blast
  have "L \<in> set (filter (\<lambda>l. trim l \<noteq> []) (split_nl s))" using assms by simp
  then have Lne: "trim L \<noteq> []" by simp
  have ts: "trim s = trim s'" unfolding w(1) using w(2) by (rule trim_ws_left)
  have 1: "trim (hd (split_nl (trim s'))) = trim L"
    using first_line_trim(2)[of s'] Lne w(3) by simp
  have "split_nl (trim s') = hd (split_nl (trim s')) # tl (split_nl (trim s'))" by simp
  then have "filter (\<lambda>l. trim l \<noteq> []) (split_nl (trim s')) =
               hd (split_nl (trim s')) # filter (\<lambda>l. trim l \<noteq> []) (tl (split_nl (trim s')))"
    using 1 Lne by (metis (mono_tags, lifting) filter.simps(2))
  then show ?thesis using 1 ts by auto
qed

section \<open>The identifier check of the validator\<close>

lemma ms_Cls_caps: "st' \<in> set (ms (Cls P) st) \<Longrightarrow> snd (snd st') = snd (snd st)"
  by (cases st) (auto split: list.splits if_splits)

lemma ms_Star_Cls_caps: "st' \<in> set (ms (Star (Cls P)) st) \<Longrightarrow> snd (snd st') = snd (snd st)"
  by (cases st) (auto simp: ms_Star_Cls simp del: ms.simps)

lemma ms_Lit_caps: "st' \<in> set (ms (Lit A) st) \<Longrightarrow> snd (snd st') = snd (snd st)"
  by (cases st) (auto simp: ms_Lit split: if_splits simp del: ms.simps)

lemma ms_Grp_Plus_word:
  assumes "st' \<in> set (ms (Grp n (Plus (Cls P))) st)"
  shows "\<exists>w. w \<noteq> [] \<and> (\<forall>c\<in>set w. P c) \<and> snd (snd st') = (n, w) # snd (snd st)"
proof -
  obtain b s c where st: "st = (b, s, c)" by (cases st)
  from assms obtain k where k: "1 \<le> k" "k \<le> length (takeWhile P s)"
    and st': "st' = (rev (take k s) @ b, drop k s, (n, take (length s - length (drop k s)) s) # c)"
    unfolding st by (auto simp: ms_Plus_Cls simp del: upt_Suc)
  have kl: "k \<le> length s" using k(2) length_takeWhile_le[of P s] by linarith
  have w: "take (length s - length (drop k s)) s = take k s" using kl by simp
  have "take k s = take k (takeWhile P s)"
    using k(2) by (metis (no_types) append_eq_conv_conj takeWhile_dropWhile_id take_append min.absorb2 length_take take_all order_refl append_Nil2 diff_is_0_eq' take_0)
  then have "\<forall>c\<in>set (take k s). P c"
    by (metis in_set_takeD set_takeWhileD)
  moreover have "take k s \<noteq> []" using k(1) kl by (cases s) auto
  ultimately show ?thesis using st' w st by auto
qed

lemma ms_Seq_mem:
  "st' \<in> set (ms (Seq r1 r2) st) \<longleftrightarrow> (\<exists>st1\<in>set (ms r1 st). st' \<in> set (ms r2 st1))"
  by auto

lemma js_match_Bol_Some:
  assumes "js_match s (Seq Bol r) = Some m"
  shows "\<exists>st\<in>set (ms r ([], s, [])). mcaps m = snd (snd st)"
proof (cases s)
  case Nil
  then show ?thesis using assms
    by (auto simp: js_match_def split: list.splits)
next
  case (Cons x xs)
  have "rx_search (Seq Bol r) [x] xs = None" by (rule rx_search_Bol_later) simp
  then show ?thesis using assms Cons
    by (auto simp: js_match_def split: list.splits)
qed

lemma id_prefix_capture:
  assumes "js_match line (Seqs [Bol, Star (Cls is_ws), Grp 1 (Plus (Cls is_word)), Star (Cls is_ws), r]) = Some m"
    and keep: "\<And>st st'. st' \<in> set (ms r st) \<Longrightarrow> snd (snd st') = snd (snd st)"
  shows "grp_txt m 1 \<noteq> [] \<and> (\<forall>c\<in>set (grp_txt m 1). is_word c)"
proof -
  have "js_match line (Seq Bol (Seq (Star (Cls is_ws)) (Seq (Grp 1 (Plus (Cls is_word))) (Seq (Star (Cls is_ws)) r)))) = Some m"
    using assms(1) by simp
  from js_match_Bol_Some[OF this] obtain st where
    st: "st \<in> set (ms (Seq (Star (Cls is_ws)) (Seq (Grp 1 (Plus (Cls is_word))) (Seq (Star (Cls is_ws)) r))) ([], line, []))"
    and m: "mcaps m = snd (snd st)" by blast
  from st obtain st1 st2 st3 where
    1: "st1 \<in> set (ms (Star (Cls is_ws)) ([], line, []))" and
    2: "st2 \<in> set (ms (Grp 1 (Plus (Cls is_word))) st1)" and
    3: "st3 \<in> set (ms (Star (Cls is_ws)) st2)" and
    4: "st \<in> set (ms r st3)"
    unfolding ms_Seq_mem by blast
  have c1: "snd (snd st1) = []" using ms_Star_Cls_caps[OF 1] by simp
  obtain w where w: "w \<noteq> []" "\<forall>c\<in>set w. is_word c" "snd (snd st2) = (1, w) # snd (snd st1)"
    using ms_Grp_Plus_word[OF 2] by blast
  have "snd (snd st) = [(1, w)]"
    using keep[OF 4] ms_Star_Cls_caps[OF 3] w(3) c1 by simp
  then have "grp_txt m 1 = w" using m by (simp add: grp_txt_def grp_def)
  then show ?thesis using w by simp
qed

lemma wordOnly_test:
  assumes "w \<noteq> []" "\<forall>c\<in>set w. is_word c"
  shows "js_test wordOnly w"
proof -
  have tw: "takeWhile is_word (w @ []) = w" using assms(2) by simp
  obtain zs where 1: "ms (Grp 0 (Plus (Cls is_word))) ([], w @ [], []) = (rev w @ [], [], (0, w) # []) # zs"
    using ms_Grp_Plus_Cls_hd[OF assms(1) tw, of 0 "[]" "[]"] by blast
  have "ms (Plus (Cls is_word)) ([], w, []) \<noteq> []"
    using 1 by (auto simp del: ms.simps simp add: ms.simps(8))
  then obtain st zs' where 2: "ms (Plus (Cls is_word)) ([], w, []) = st # zs'"
    by (cases "ms (Plus (Cls is_word)) ([], w, [])") auto
  have "fst (snd st) = []" using 1 2 by (auto simp del: ms.simps simp add: ms.simps(8))
  then have 3: "ms Eol st = [st]" by (cases st) auto
  obtain x xs where w: "w = x # xs" using assms(1) by (cases w) auto
  have "ms wordOnly ([], w, []) \<noteq> []"
    unfolding wordOnly_def using 2 3 by (simp del: ms.simps add: ms.simps(4,9))
  then show ?thesis
    unfolding js_test_def js_match_def w by (auto split: list.splits)
qed

lemma nodeIdPattern_word:
  assumes "js_match line nodeIdPattern = Some m"
  shows "js_test wordOnly (grp_txt m 1)"
proof -
  have "grp_txt m 1 \<noteq> [] \<and> (\<forall>c\<in>set (grp_txt m 1). is_word c)"
    using assms unfolding nodeIdPattern_def
    by (rule id_prefix_capture) (rule ms_Cls_caps)
  then show ?thesis using wordOnly_test by blast
qed

lemma connIdPattern_word:
  assumes "js_match line connIdPattern = Some m"
  shows "js_test wordOnly (grp_txt m 1)"
proof -
  have "grp_txt m 1 \<noteq> [] \<and> (\<forall>c\<in>set (grp_txt m 1). is_word c)"
    using assms unfolding connIdPattern_def
    by (rule id_prefix_capture) (rule ms_Lit_caps)
  then show ?thesis using wordOnly_test by blast
qed

text \<open>What one line adds: at most a styling warning and a chained-arrows issue.\<close>

lemma validate_line_eq:
  "validate_line (i, raw) acc =
     (fst acc @ (if 1 < length (js_match_g (trim raw) (Lit ''-->'')) then [chained_issue i] else []),
      snd acc @ (if startsWith (trim raw) ''classDef'' \<or> startsWith (trim raw) ''style ''
                 then [styling_warning i] else []))"
proof -
  have a: "(case js_match (trim raw) nodeIdPattern of
              Some m \<Rightarrow> if \<not> js_test wordOnly (grp_txt m 1) then xs @ [invalid_id_issue i (grp_txt m 1)] else xs
            | None \<Rightarrow> xs) = xs" for xs
    using nodeIdPattern_word by (auto split: option.splits)
  have b: "(case js_match (trim raw) connIdPattern of
              Some m \<Rightarrow> if \<not> js_test wordOnly (grp_txt m 1) then xs @ [invalid_id_issue i (grp_txt m 1)] else xs
            | None \<Rightarrow> xs) = xs" for xs
    using connIdPattern_word by (auto split: option.splits)
  show ?thesis
    unfolding validate_line_def Let_def fst_conv snd_conv a b by simp
qed

lemma fold_validate_eq:
  "fold validate_line xs acc =
     (fst acc @ concat (map (\<lambda>il. if 1 < length (js_match_g (trim (snd il)) (Lit ''-->''))
                                  then [chained_issue (fst il)] else []) xs),
      snd acc @ concat (map (\<lambda>il. if startsWith (trim (snd il)) ''classDef''
                                     \<or> startsWith (trim (snd il)) ''style ''
                                  then [styling_warning (fst il)] else []) xs))"
proof (induction xs arbitrary: acc)
  case Nil
  then show ?case by simp
next
  case (Cons il xs)
  obtain i raw where il: "il = (i, raw)" by (cases il)
  show ?case unfolding il by (simp add: Cons validate_line_eq del: One_nat_def)
qed

text \<open>
  Claim C3, which the code does not meet. The identifier that the validator tests was
  captured by \<^verbatim>\<open>(\w+)\<close>, so it always passes the test \<^verbatim>\<open>/^\w+$/\<close>: no text has an
  issue that starts with \<^verbatim>\<open>Invalid node ID\<close>, and a flowchart whose first node is
  written \<^verbatim>\<open>my-node[Label]\<close> has no issue at all.
\<close>

theorem invalid_id_unreachable:
  "[f\<leftarrow>issues (validateMermaid text). startsWith (fissue f) ''Invalid node ID''] = []
   \<and> issues (validateMermaid (''flowchart TD'' @ [nl] @ ''my-node[Label] --> B'')) = []"
proof
  have c: "\<not> startsWith (fissue (chained_issue i)) ''Invalid node ID''" for i
    by (simp add: chained_issue_def startsWith_def)
  have "filter (\<lambda>f. startsWith (fissue f) ''Invalid node ID'')
          (concat (map (\<lambda>il. if 1 < length (js_match_g (trim (snd il)) (Lit ''-->''))
                                  then [chained_issue (fst il)] else []) xs)) = []" for xs :: "(nat \<times> string) list"
    using c by (induction xs) auto
  then show "[f\<leftarrow>issues (validateMermaid text). startsWith (fissue f) ''Invalid node ID''] = []"
    unfolding validateMermaid_def Let_def fold_validate_eq
    by (simp add: startsWith_def del: One_nat_def)
next
  show "issues (validateMermaid (''flowchart TD'' @ [nl] @ ''my-node[Label] --> B'')) = []"
    by code_simp
qed

section \<open>The kind of a parse\<close>

lemma dtype_parsers [simp]:
  "dtype (parseFlowchart ls dir) = ''flowchart''"
  "dtype (parseSequenceDiagram ls) = ''sequence''"
  "dtype (parseERDiagram ls) = ''erDiagram''"
  "dtype (parseMindmap ls) = ''mindmap''"
  by (simp_all add: parseFlowchart_def parseSequenceDiagram_def parseERDiagram_def
      parseMindmap_def Let_def)

lemma startsWith_excl:
  assumes "startsWith fl a" "startsWith fl b" "a \<noteq> []" "b \<noteq> []"
  shows "hd a = hd b"
proof -
  from assms obtain x xs where "fl = x # xs" by (cases fl) (auto simp: startsWith_def)
  then show ?thesis using assms by (cases a; cases b) (auto simp: startsWith_def)
qed

lemma parseMermaid_dtype:
  assumes "filter (\<lambda>l. trim l \<noteq> []) (split_nl (parse_clean text)) = l # rest"
  shows "\<exists>d. parseMermaid text = Inr d \<and> dtype d = kind_of (toLowerCase (trim l))"
proof -
  let ?fl = "toLowerCase (trim l)"
  have ex: "\<not> (startsWith ?fl a \<and> startsWith ?fl b)" if "a \<noteq> []" "b \<noteq> []" "hd a \<noteq> hd b" for a b
    using startsWith_excl[of ?fl a b] that by blast
  have e1: "startsWith ?fl ''classdiagram'' \<Longrightarrow> \<not> startsWith ?fl ''erdiagram'' \<and> \<not> startsWith ?fl ''mindmap''"
    using ex[of "''classdiagram''" "''erdiagram''"] ex[of "''classdiagram''" "''mindmap''"] by simp
  have e2: "startsWith ?fl ''statediagram'' \<Longrightarrow> \<not> startsWith ?fl ''mindmap''"
    using ex[of "''statediagram''" "''mindmap''"] by simp
  have e3: "startsWith ?fl ''gitgraph'' \<Longrightarrow> \<not> startsWith ?fl ''mindmap''"
    using ex[of "''gitgraph''" "''mindmap''"] by simp
  show ?thesis
    unfolding parseMermaid_def Let_def assms detectDiagramType_def kind_of_def
    using e1 e2 e3 by (simp add: Let_def)
qed

lemma startsWith_app:
  assumes "startsWith s (p @ q)"
  shows "startsWith s p"
proof -
  have "take (length p) (take (length (p @ q)) s) = take (length p) (p @ q)"
    using assms by (simp only: startsWith_def)
  then show ?thesis by (simp add: startsWith_def min_def)
qed

lemma no_fence_clean:
  assumes "\<not> startsWith (trim text) ''```''"
  shows "parse_clean text = trim text"
proof -
  have "\<not> startsWith (trim text) ''```mermaid''"
    using assms startsWith_app[of "trim text" "''```''" "''mermaid''"] by auto
  then show ?thesis using assms by (simp add: parse_clean_def Let_def)
qed

lemma first_line_unfenced:
  assumes "\<not> startsWith (trim text) ''```''"
    and "filter (\<lambda>l. trim l \<noteq> []) (split_nl text) = L # rest"
  shows "first_line text = Some (toLowerCase (trim L))"
proof -
  obtain l1 rest1 where "filter (\<lambda>l. trim l \<noteq> []) (split_nl (trim text)) = l1 # rest1" "trim l1 = trim L"
    using first_nonblank_trim[OF assms(2)] by blast
  then show ?thesis by (simp add: first_line_def no_fence_clean[OF assms(1)])
qed

text \<open>
  Claim C4. The parser reads the dialect from the first non-empty line that is left
  after trimming and removal of the fences, trimmed and in lower case. When there is
  such a line the parse succeeds; its kind is \<^verbatim>\<open>flowchart\<close> for the keywords
  \<^verbatim>\<open>flowchart\<close> and \<^verbatim>\<open>graph\<close>, \<^verbatim>\<open>sequence\<close> for \<^verbatim>\<open>sequencediagram\<close>, \<^verbatim>\<open>erDiagram\<close> for
  \<^verbatim>\<open>erdiagram\<close>, \<^verbatim>\<open>mindmap\<close> for \<^verbatim>\<open>mindmap\<close>, and \<^verbatim>\<open>flowchart\<close> for every line that
  starts with none of them. The kind of a result is always one of these four. For a
  text that does not open with a fence, that line is the first non-empty line of the
  text itself.
\<close>

theorem parse_type:
  "(first_line text = Some fl \<longrightarrow>
      (\<exists>d. parseMermaid text = Inr d
          \<and> (startsWith fl ''flowchart'' \<or> startsWith fl ''graph'' \<longrightarrow> dtype d = ''flowchart'')
          \<and> (startsWith fl ''sequencediagram'' \<longrightarrow> dtype d = ''sequence'')
          \<and> (startsWith fl ''erdiagram'' \<longrightarrow> dtype d = ''erDiagram'')
          \<and> (startsWith fl ''mindmap'' \<longrightarrow> dtype d = ''mindmap'')
          \<and> (\<not> startsWith fl ''flowchart'' \<and> \<not> startsWith fl ''graph''
              \<and> \<not> startsWith fl ''sequencediagram'' \<and> \<not> startsWith fl ''erdiagram''
              \<and> \<not> startsWith fl ''mindmap'' \<longrightarrow> dtype d = ''flowchart'')))
   \<and> (parseMermaid text = Inr d \<longrightarrow>
        dtype d = ''flowchart'' \<or> dtype d = ''sequence'' \<or> dtype d = ''erDiagram''
        \<or> dtype d = ''mindmap'')
   \<and> (\<not> startsWith (trim text) ''```''
        \<and> filter (\<lambda>l. trim l \<noteq> []) (split_nl text) = L # rest \<longrightarrow>
        first_line text = Some (toLowerCase (trim L)))"
proof (intro conjI impI)
  assume "first_line text = Some fl"
  then obtain l rest where l: "filter (\<lambda>l. trim l \<noteq> []) (split_nl (parse_clean text)) = l # rest"
    and fl: "fl = toLowerCase (trim l)"
    by (auto simp: first_line_def split: list.splits)
  obtain d where d: "parseMermaid text = Inr d" "dtype d = kind_of fl"
    using parseMermaid_dtype[OF l] fl by blast
  have ex: "\<not> (startsWith fl a \<and> startsWith fl b)" if "a \<noteq> []" "b \<noteq> []" "hd a \<noteq> hd b" for a b
    using startsWith_excl[of fl a b] that by blast
  have x: "startsWith fl ''sequencediagram'' \<Longrightarrow> \<not> startsWith fl ''flowchart'' \<and> \<not> startsWith fl ''graph''"
    "startsWith fl ''erdiagram'' \<Longrightarrow> \<not> startsWith fl ''flowchart'' \<and> \<not> startsWith fl ''graph'' \<and> \<not> startsWith fl ''sequencediagram''"
    "startsWith fl ''mindmap'' \<Longrightarrow> \<not> startsWith fl ''flowchart'' \<and> \<not> startsWith fl ''graph'' \<and> \<not> startsWith fl ''sequencediagram'' \<and> \<not> startsWith fl ''erdiagram''"
    using ex[of "''sequencediagram''" "''flowchart''"] ex[of "''sequencediagram''" "''graph''"]
      ex[of "''erdiagram''" "''flowchart''"] ex[of "''erdiagram''" "''graph''"]
      ex[of "''erdiagram''" "''sequencediagram''"] ex[of "''mindmap''" "''flowchart''"]
      ex[of "''mindmap''" "''graph''"] ex[of "''mindmap''" "''sequencediagram''"]
      ex[of "''mindmap''" "''erdiagram''"]
    by simp_all
  show "\<exists>d. parseMermaid text = Inr d
          \<and> (startsWith fl ''flowchart'' \<or> startsWith fl ''graph'' \<longrightarrow> dtype d = ''flowchart'')
          \<and> (startsWith fl ''sequencediagram'' \<longrightarrow> dtype d = ''sequence'')
          \<and> (startsWith fl ''erdiagram'' \<longrightarrow> dtype d = ''erDiagram'')
          \<and> (startsWith fl ''mindmap'' \<longrightarrow> dtype d = ''mindmap'')
          \<and> (\<not> startsWith fl ''flowchart'' \<and> \<not> startsWith fl ''graph''
              \<and> \<not> startsWith fl ''sequencediagram'' \<and> \<not> startsWith fl ''erdiagram''
              \<and> \<not> startsWith fl ''mindmap'' \<longrightarrow> dtype d = ''flowchart'')"
    using d x by (intro exI[of _ d]) (auto simp: kind_of_def)
next
  assume "parseMermaid text = Inr d"
  from parseMermaid_cases[OF this]
  show "dtype d = ''flowchart'' \<or> dtype d = ''sequence'' \<or> dtype d = ''erDiagram''
        \<or> dtype d = ''mindmap''"
    by auto
next
  assume a: "\<not> startsWith (trim text) ''```'' \<and> filter (\<lambda>l. trim l \<noteq> []) (split_nl text) = L # rest"
  then show "first_line text = Some (toLowerCase (trim L))" using first_line_unfenced by blast
qed

text \<open>
  The theorem at a sequence diagram, at a class diagram (a kind the parser does not
  know) and at a text without any keyword.
\<close>

theorem parse_type_witness:
  "first_line (''sequenceDiagram'' @ [nl] @ ''A->>B: hi'') = Some ''sequencediagram''
   \<and> (\<exists>d. parseMermaid (''sequenceDiagram'' @ [nl] @ ''A->>B: hi'') = Inr d \<and> dtype d = ''sequence'')
   \<and> first_line (''classDiagram'' @ [nl] @ ''A --> B'') = Some ''classdiagram''
   \<and> (\<exists>d. parseMermaid (''classDiagram'' @ [nl] @ ''A --> B'') = Inr d \<and> dtype d = ''flowchart'')
   \<and> first_line ('' '' @ [nl] @ ''  Mindmap'') = Some ''mindmap''"
proof -
  have f1: "first_line (''sequenceDiagram'' @ [nl] @ ''A->>B: hi'') = Some ''sequencediagram''"
    by code_simp
  have f2: "first_line (''classDiagram'' @ [nl] @ ''A --> B'') = Some ''classdiagram''"
    by code_simp
  have s1: "startsWith ''sequencediagram'' ''sequencediagram''"
    and s2: "\<not> startsWith ''classdiagram'' ''flowchart''" "\<not> startsWith ''classdiagram'' ''graph''"
      "\<not> startsWith ''classdiagram'' ''sequencediagram''" "\<not> startsWith ''classdiagram'' ''erdiagram''"
      "\<not> startsWith ''classdiagram'' ''mindmap''"
    by (simp_all add: startsWith_def)
  have h3: "\<not> startsWith (trim ('' '' @ [nl] @ ''  Mindmap'')) ''```''
            \<and> filter (\<lambda>l. trim l \<noteq> []) (split_nl ('' '' @ [nl] @ ''  Mindmap'')) = [''  Mindmap'']"
    by code_simp
  have t3: "toLowerCase (trim ''  Mindmap'') = ''mindmap''" by code_simp
  have a: "\<exists>d. parseMermaid (''sequenceDiagram'' @ [nl] @ ''A->>B: hi'') = Inr d \<and> dtype d = ''sequence''"
    using parse_type[of "''sequenceDiagram'' @ [nl] @ ''A->>B: hi''" "''sequencediagram''"] f1 s1
    by blast
  have b: "\<exists>d. parseMermaid (''classDiagram'' @ [nl] @ ''A --> B'') = Inr d \<and> dtype d = ''flowchart''"
    using parse_type[of "''classDiagram'' @ [nl] @ ''A --> B''" "''classdiagram''"] f2 s2
    by blast
  have c: "first_line ('' '' @ [nl] @ ''  Mindmap'') = Some ''mindmap''"
    using parse_type[of "'' '' @ [nl] @ ''  Mindmap''" _ _ "''  Mindmap''" "[]"] h3 t3
    by simp
  show ?thesis using f1 f2 a b c by blast
qed

section \<open>Fenced texts\<close>

lemma ms_Lit_Eol:
  "ms (Seq (Lit A) Eol) (b, z, c) = (if z = A then [(rev A @ b, [], c)] else [])"
proof -
  have "take (length A) z = A \<and> drop (length A) z = [] \<longleftrightarrow> z = A"
    by (metis append_Nil2 append_take_drop_id append_eq_conv_conj)
  then show ?thesis by (auto simp: ms_Lit simp del: ms.simps(1,2,3,6,7,8,9,11))
qed

lemma ms_fenceClose:
  "ms fenceClose (b, z, c) =
     (if z = nl # ''```'' then [(rev (nl # ''```'') @ b, [], c)]
      else if z = ''```'' then [(rev ''```'' @ b, [], c)] else [])"
proof -
  have r: "fenceClose = Seq (Alt (Chr nl) Eps) (Seq (Lit ''```'') Eol)"
    by (simp add: fenceClose_def Opt_def)
  have nl3: "nl \<noteq> CHR 0x60" by (simp add: nl_def)
  have e: "ms fenceClose (b, z, c) =
             concat (map (ms (Seq (Lit ''```'') Eol)) (ms (Alt (Chr nl) Eps) (b, z, c)))"
    by (simp only: r ms.simps(4))
  have a: "ms (Alt (Chr nl) Eps) (b, z, c) =
             (case z of [] \<Rightarrow> [] | y # ys \<Rightarrow> if y = nl then [(y # b, ys, c)] else []) @ [(b, z, c)]"
    by simp
  show ?thesis
    unfolding e a using nl3
    by (cases z) (auto simp add: ms_Lit_Eol simp del: ms.simps Lit.simps)
qed

text \<open>The closing fence is found only at the end, with the newline before it if there is one.\<close>

lemma search_fenceClose:
  assumes "rx_search fenceClose b x = Some m"
  shows "\<exists>u. x = u @ mtext m \<and> mindex m = length b + length u
             \<and> (mtext m = ''```'' \<or> mtext m = nl # ''```'')"
  using assms
proof (induction x arbitrary: b)
  case Nil
  then show ?case by (simp add: ms_fenceClose del: ms.simps)
next
  case (Cons y ys)
  show ?case
  proof (cases "ms fenceClose (b, y # ys, [])")
    case Nil
    then have "rx_search fenceClose (y # b) ys = Some m" using Cons.prems by simp
    from Cons.IH[OF this] obtain u where "ys = u @ mtext m" "mindex m = length (y # b) + length u"
      "mtext m = ''```'' \<or> mtext m = nl # ''```''" by blast
    then have "y # ys = (y # u) @ mtext m \<and> mindex m = length b + length (y # u)
               \<and> (mtext m = ''```'' \<or> mtext m = nl # ''```'')" by simp
    then show ?thesis by blast
  next
    case (Cons st sts)
    then have z: "y # ys = nl # ''```'' \<or> y # ys = ''```''" and r: "fst (snd st) = []"
      by (auto simp: ms_fenceClose split: if_splits simp del: ms.simps)
    have "m = \<lparr>mindex = length b, mtext = y # ys, mcaps = snd (snd st)\<rparr>"
      using Cons.prems Cons r by simp
    then have "y # ys = [] @ mtext m \<and> mindex m = length b + length ([] :: string)
               \<and> (mtext m = ''```'' \<or> mtext m = nl # ''```'')" using z by auto
    then show ?thesis by blast
  qed
qed

lemma js_remove_fenceClose:
  "js_remove x fenceClose = x
   \<or> (\<exists>t. x = js_remove x fenceClose @ t \<and> (t = ''```'' \<or> t = nl # ''```''))"
proof (cases "js_match x fenceClose")
  case None
  then show ?thesis by (simp add: js_remove_def)
next
  case (Some m)
  then obtain u where u: "x = u @ mtext m" "mindex m = length u" "mtext m = ''```'' \<or> mtext m = nl # ''```''"
    using search_fenceClose[of "[]" x m] by (auto simp: js_match_def)
  have "js_remove x fenceClose = take (length u) x @ drop (length u + length (mtext m)) x"
    using Some u(2) by (simp add: js_remove_def)
  also have "\<dots> = u" by (subst (1 2) u(1)) simp
  finally show ?thesis using u by metis
qed

lemma js_remove_fenceClose_nl: "js_remove (x @ nl # ''```'') fenceClose = x"
proof -
  have nl3: "nl \<noteq> CHR 0x60" by (simp add: nl_def)
  have s: "rx_search fenceClose b (x @ nl # ''```'') =
             Some \<lparr>mindex = length b + length x, mtext = nl # ''```'', mcaps = []\<rparr>" for b
  proof (induction x arbitrary: b)
    case Nil
    then show ?case by (simp add: ms_fenceClose del: ms.simps)
  next
    case (Cons y ys)
    have "y # ys @ nl # ''```'' \<noteq> nl # ''```''" "y # ys @ nl # ''```'' \<noteq> ''```''"
      using nl3 by (auto simp: append_eq_Cons_conv)
    then have "ms fenceClose (b, (y # ys) @ nl # ''```'', []) = []"
      by (simp add: ms_fenceClose del: ms.simps)
    then show ?case using Cons[of "y # b"] by simp
  qed
  show ?thesis by (simp add: js_remove_def js_match_def s)
qed

lemma js_remove_fenceOpen: "js_remove (''```'' @ nl # x) fenceOpen = x"
  by (simp add: js_remove_def js_match_def fenceOpen_def Opt_def)

lemma fenced_trim:
  assumes "\<forall>c\<in>set w1. is_ws c" "\<forall>c\<in>set w2. is_ws c"
  shows "trim (w1 @ ''```'' @ nl # inner @ nl # ''```'' @ w2) = ''```'' @ nl # inner @ nl # ''```''"
proof -
  let ?core = "''```'' @ nl # inner @ nl # ''```''"
  have t: "\<not> is_ws (CHR 0x60)" by (simp add: is_ws_def)
  have "trim ?core = ?core" using t by (intro trim_fixed) simp_all
  moreover have "trim (?core @ w2) = trim ?core" using assms(2) by (rule trim_ws_right)
  moreover have "trim (w1 @ ?core @ w2) = trim (?core @ w2)" using assms(1) by (rule trim_ws_left)
  ultimately show ?thesis by simp
qed

lemma fenced_parse_clean:
  assumes "\<forall>c\<in>set w1. is_ws c" "\<forall>c\<in>set w2. is_ws c"
  shows "parse_clean (w1 @ ''```'' @ nl # inner @ nl # ''```'' @ w2) = inner"
proof -
  have nm: "nl \<noteq> CHR ''m''" by (simp add: nl_def)
  have 1: "\<not> startsWith (''```'' @ nl # inner @ nl # ''```'') ''```mermaid''"
    using nm by (simp add: startsWith_def)
  have 2: "startsWith (''```'' @ nl # inner @ nl # ''```'') ''```''"
    by (simp add: startsWith_def)
  have 3: "js_remove (''```'' @ nl # (inner @ nl # ''```'')) fenceOpen = inner @ nl # ''```''"
    by (rule js_remove_fenceOpen)
  show ?thesis
    unfolding parse_clean_def Let_def fenced_trim[OF assms]
    using 1 2 3 js_remove_fenceClose_nl[of inner] by simp
qed

lemma fenced_validate_clean:
  assumes "\<forall>c\<in>set w1. is_ws c" "\<forall>c\<in>set w2. is_ws c"
  shows "validate_clean (w1 @ ''```'' @ nl # inner @ nl # ''```'' @ w2) = ''```'' @ nl # inner @ nl # ''```''"
proof -
  have nm: "nl \<noteq> CHR ''m''" by (simp add: nl_def)
  have 1: "\<not> startsWith (''```'' @ nl # inner @ nl # ''```'') ''```mermaid''"
    using nm by (simp add: startsWith_def)
  show ?thesis
    unfolding validate_clean_def Let_def fenced_trim[OF assms] using 1 by simp
qed

lemma validTypes_nonempty: "list_ex (startsWith fl) validTypes \<Longrightarrow> fl \<noteq> []"
  by (auto simp: validTypes_def startsWith_def)

text \<open>
  Claim C10. A text that is wrapped in a plain fence (three backticks and a newline
  before, a newline and three backticks after, white space around) and whose first
  inner line starts with a diagram keyword is parsed as the inner text, with the kind
  that line selects; the validator keeps the fence, reads the backticks as line 1, and
  its first issue is the missing type declaration, so the text is not valid.
\<close>

theorem plain_fence:
  assumes "\<forall>c\<in>set w1. is_ws c" "\<forall>c\<in>set w2. is_ws c"
    and "list_ex (startsWith (toLowerCase (trim (hd (split_nl inner))))) validTypes"
  shows "(\<exists>d. parseMermaid (w1 @ ''```'' @ nl # inner @ nl # ''```'' @ w2) = Inr d
              \<and> dtype d = kind_of (toLowerCase (trim (hd (split_nl inner)))))
         \<and> hd (issues (validateMermaid (w1 @ ''```'' @ nl # inner @ nl # ''```'' @ w2))) =
             \<lparr>fline = 1, fissue = ''Missing or invalid diagram type declaration'',
              suggestion = ''Start with flowchart TD, sequenceDiagram, etc.''\<rparr>
         \<and> \<not> isValid (validateMermaid (w1 @ ''```'' @ nl # inner @ nl # ''```'' @ w2))
         \<and> compatibility (validateMermaid (w1 @ ''```'' @ nl # inner @ nl # ''```'' @ w2)) = ''low''"
proof -
  let ?src = "w1 @ ''```'' @ nl # inner @ nl # ''```'' @ w2"
  let ?L = "hd (split_nl inner)"
  have "toLowerCase (trim ?L) \<noteq> []" using assms(3) by (rule validTypes_nonempty)
  then have Lne: "trim ?L \<noteq> []" by (auto simp: toLowerCase_def)
  have "split_nl inner = ?L # tl (split_nl inner)" by simp
  then have "filter (\<lambda>l. trim l \<noteq> []) (split_nl inner) =
               ?L # filter (\<lambda>l. trim l \<noteq> []) (tl (split_nl inner))"
    using Lne by (metis (mono_tags, lifting) filter.simps(2))
  then have "filter (\<lambda>l. trim l \<noteq> []) (split_nl (parse_clean ?src)) =
               ?L # filter (\<lambda>l. trim l \<noteq> []) (tl (split_nl inner))"
    by (simp only: fenced_parse_clean[OF assms(1,2)])
  from parseMermaid_dtype[OF this]
  have p: "\<exists>d. parseMermaid ?src = Inr d \<and> dtype d = kind_of (toLowerCase (trim ?L))" .
  have n3: "nl \<notin> set ''```''" by (simp add: nl_def)
  have sp: "split_nl (''```'' @ nl # inner @ nl # ''```'') = ''```'' # split_nl (inner @ nl # ''```'')"
    using n3 by (rule split_nl_nlfree_nl)
  have fl: "toLowerCase (trim ''```'') = ''```''" by code_simp
  have nv: "\<not> list_ex (startsWith ''```'') validTypes"
    by (simp add: validTypes_def startsWith_def)
  obtain more where i: "issues (validateMermaid ?src) =
      \<lparr>fline = 1, fissue = ''Missing or invalid diagram type declaration'',
        suggestion = ''Start with flowchart TD, sequenceDiagram, etc.''\<rparr> # more"
    unfolding validateMermaid_def Let_def fenced_validate_clean[OF assms(1,2)] sp fold_validate_eq
    using fl nv by (simp del: split_nl.simps upt_Suc)
  have v: "isValid (validateMermaid ?src) = (length (issues (validateMermaid ?src)) = 0)"
    "compatibility (validateMermaid ?src) =
       (if length (issues (validateMermaid ?src)) = 0
        then (if length (warnings (validateMermaid ?src)) = 0 then ''high'' else ''medium'')
        else ''low'')"
    by (simp_all add: validateMermaid_def Let_def)
  show ?thesis using p i v by simp
qed

text \<open>The theorem at a fenced flowchart of one edge, with a newline after the fence.\<close>

theorem plain_fence_witness:
  "(\<exists>d. parseMermaid (''```'' @ nl # (''flowchart TD'' @ nl # ''A --> B'') @ nl # ''```'' @ [nl]) = Inr d
        \<and> dtype d = ''flowchart'')
   \<and> hd (issues (validateMermaid (''```'' @ nl # (''flowchart TD'' @ nl # ''A --> B'') @ nl # ''```'' @ [nl]))) =
       \<lparr>fline = 1, fissue = ''Missing or invalid diagram type declaration'',
        suggestion = ''Start with flowchart TD, sequenceDiagram, etc.''\<rparr>
   \<and> \<not> isValid (validateMermaid (''```'' @ nl # (''flowchart TD'' @ nl # ''A --> B'') @ nl # ''```'' @ [nl]))"
proof -
  have h1: "\<forall>c\<in>set ([] :: string). is_ws c" by simp
  have h2: "\<forall>c\<in>set [nl]. is_ws c" by (simp add: is_ws_def nl_def)
  have h3: "list_ex (startsWith (toLowerCase (trim (hd (split_nl (''flowchart TD'' @ nl # ''A --> B'')))))) validTypes"
    by code_simp
  have k: "kind_of (toLowerCase (trim (hd (split_nl (''flowchart TD'' @ nl # ''A --> B''))))) = ''flowchart''"
    by code_simp
  show ?thesis using plain_fence[OF h1 h2 h3] k by simp
qed

section \<open>Chained arrows\<close>

lemma search_Lit:
  assumes "A \<noteq> []"
  shows "case rx_search (Lit A) b s of
           None \<Rightarrow> \<not> (\<exists>x z. s = x @ A @ z)
         | Some m \<Rightarrow> mtext m = A \<and>
             (\<exists>x z. s = x @ A @ z \<and> mindex m = length b + length x
                    \<and> (\<forall>x' z'. s = x' @ A @ z' \<longrightarrow> length x \<le> length x'))"
proof (induction s arbitrary: b)
  case Nil
  then show ?case using assms by (simp add: ms_Lit del: ms.simps)
next
  case (Cons y ys)
  show ?case
  proof (cases "take (length A) (y # ys) = A")
    case True
    then have "length (take (length A) (y # ys)) = length A" by simp
    then have la: "length A \<le> length (y # ys)" by (simp only: length_take)
    have "rx_search (Lit A) b (y # ys) =
            Some \<lparr>mindex = length b, mtext = take (length (y # ys) - length (drop (length A) (y # ys))) (y # ys), mcaps = []\<rparr>"
      using True by (simp add: ms_Lit del: ms.simps)
    moreover have "take (length (y # ys) - length (drop (length A) (y # ys))) (y # ys) = A"
      using True la by simp
    moreover have "y # ys = [] @ A @ drop (length A) (y # ys)"
      using True by (metis append_Nil append_take_drop_id)
    ultimately show ?thesis by (auto simp del: rx_search.simps)
  next
    case False
    then have r: "rx_search (Lit A) b (y # ys) = rx_search (Lit A) (y # b) ys"
      by (simp add: ms_Lit del: ms.simps)
    have dec: "(\<exists>x. y # ys = x @ A @ z) \<longleftrightarrow> (\<exists>x'. ys = x' @ A @ z)" for z
    proof
      assume "\<exists>x. y # ys = x @ A @ z"
      then obtain x where x: "y # ys = x @ A @ z" by blast
      have "x \<noteq> []"
      proof
        assume "x = []"
        then have "take (length A) (y # ys) = A" using x by simp
        then show False using False by blast
      qed
      then obtain x' where "x = y # x'" using x by (cases x) auto
      then show "\<exists>x'. ys = x' @ A @ z" using x by auto
    next
      assume "\<exists>x'. ys = x' @ A @ z"
      then obtain x' where "ys = x' @ A @ z" by blast
      then have "y # ys = (y # x') @ A @ z" by simp
      then show "\<exists>x. y # ys = x @ A @ z" by blast
    qed
    show ?thesis
    proof (cases "rx_search (Lit A) (y # b) ys")
      case None
      then have "\<not> (\<exists>x z. ys = x @ A @ z)" using Cons.IH[of "y # b"] by simp
      then have "\<not> (\<exists>x z. y # ys = x @ A @ z)" using dec by blast
      then show ?thesis unfolding r None by simp
    next
      case (Some m)
      then obtain x z where m: "mtext m = A" "ys = x @ A @ z" "mindex m = length (y # b) + length x"
        "\<forall>x' z'. ys = x' @ A @ z' \<longrightarrow> length x \<le> length x'"
        using Cons.IH[of "y # b"] by auto
      have min: "length (y # x) \<le> length x''" if asm: "y # ys = x'' @ A @ z''" for x'' z''
      proof -
        have "x'' \<noteq> []"
        proof
          assume "x'' = []"
          then have "take (length A) (y # ys) = A" using asm by simp
          then show False using False by blast
        qed
        then obtain x3 where x3: "x'' = y # x3" by (cases x'') (use asm in auto)
        then have "ys = x3 @ A @ z''" using asm by simp
        then have "length x \<le> length x3" using m(4) by blast
        then show ?thesis using x3 by simp
      qed
      have c1: "y # ys = (y # x) @ A @ z" using m(2) by simp
      have c2: "mindex m = length b + length (y # x)" using m(3) by simp
      have c3: "\<forall>x' z'. y # ys = x' @ A @ z' \<longrightarrow> length (y # x) \<le> length x'"
        using min by blast
      have ex: "\<exists>x z. y # ys = x @ A @ z \<and> mindex m = length b + length x
                 \<and> (\<forall>x' z'. y # ys = x' @ A @ z' \<longrightarrow> length x \<le> length x')"
        using c1 c2 c3 by (intro exI[of _ "y # x"] exI[of _ z] conjI)
      show ?thesis unfolding r Some option.case by (rule conjI[OF m(1) ex])
    qed
  qed
qed

lemma match_all_Lit:
  assumes "A \<noteq> []"
  shows "js_match_all (Lit A) b s =
     (case rx_search (Lit A) b s of
        None \<Rightarrow> []
      | Some m \<Rightarrow> A # js_match_all (Lit A) (rev (take (mindex m - length b + length A) s) @ b)
                                      (drop (mindex m - length b + length A) s))"
proof (cases "rx_search (Lit A) b s")
  case None
  then show ?thesis by (subst js_match_all.simps) simp
next
  case (Some m)
  then have "mtext m = A" using search_Lit[OF assms, where b = b and s = s] by simp
  then show ?thesis using Some assms by (subst js_match_all.simps) (simp add: Let_def)
qed

lemma two_matches:
  assumes "A \<noteq> []"
  shows "1 < length (js_match_all (Lit A) b s) \<longleftrightarrow> (\<exists>x y z. s = x @ A @ y @ A @ z)"
proof
  assume "1 < length (js_match_all (Lit A) b s)"
  then obtain m where m: "rx_search (Lit A) b s = Some m"
    by (subst (asm) match_all_Lit[OF assms]) (auto split: option.splits)
  then obtain x z1 where x: "s = x @ A @ z1" "mindex m = length b + length x"
    using search_Lit[OF assms, where b = b and s = s] by auto
  have d: "drop (mindex m - length b + length A) s = z1" using x by simp
  let ?b' = "rev (take (mindex m - length b + length A) s) @ b"
  have "js_match_all (Lit A) b s = A # js_match_all (Lit A) ?b' z1"
    using m d by (subst match_all_Lit[OF assms]) simp
  then have "js_match_all (Lit A) ?b' z1 \<noteq> []"
    using \<open>1 < length (js_match_all (Lit A) b s)\<close> by auto
  then obtain m2 where "rx_search (Lit A) ?b' z1 = Some m2"
    by (subst (asm) match_all_Lit[OF assms]) (auto split: option.splits)
  then obtain y z where "z1 = y @ A @ z"
    using search_Lit[OF assms, where b = ?b' and s = z1] by auto
  then show "\<exists>x y z. s = x @ A @ y @ A @ z" using x(1) by blast
next
  assume "\<exists>x y z. s = x @ A @ y @ A @ z"
  then obtain x0 y z0 where s0: "s = x0 @ A @ y @ A @ z0" by blast
  then have "\<exists>x z. s = x @ A @ z" by blast
  then obtain m where m: "rx_search (Lit A) b s = Some m"
    using search_Lit[OF assms, where b = b and s = s] by (cases "rx_search (Lit A) b s") auto
  then obtain x z1 where x: "s = x @ A @ z1" "mindex m = length b + length x"
    "\<forall>x' z'. s = x' @ A @ z' \<longrightarrow> length x \<le> length x'"
    using search_Lit[OF assms, where b = b and s = s] by auto
  have le: "length x \<le> length x0" using x(3) s0 by blast
  have d: "drop (mindex m - length b + length A) s = z1" using x by simp
  have "z1 = drop (length x + length A) s" using x(1) by simp
  also have "\<dots> = drop (length x + length A) ((x0 @ A @ y) @ A @ z0)" using s0 by simp
  also have "\<dots> = drop (length x + length A) (x0 @ A @ y) @ A @ z0"
    using le by simp
  finally have "\<exists>x' z'. z1 = x' @ A @ z'" by blast
  let ?b' = "rev (take (mindex m - length b + length A) s) @ b"
  obtain m2 where m2: "rx_search (Lit A) ?b' z1 = Some m2"
    using search_Lit[OF assms, where b = ?b' and s = z1] \<open>\<exists>x' z'. z1 = x' @ A @ z'\<close>
    by (cases "rx_search (Lit A) ?b' z1") auto
  have "js_match_all (Lit A) b s = A # js_match_all (Lit A) ?b' z1"
    using m d by (subst match_all_Lit[OF assms]) simp
  moreover have "js_match_all (Lit A) ?b' z1 \<noteq> []"
    using m2 by (subst match_all_Lit[OF assms]) simp
  ultimately show "1 < length (js_match_all (Lit A) b s)"
    by (cases "js_match_all (Lit A) ?b' z1") auto
qed

lemma arrowCount_chained: "1 < length (js_match_g t (Lit ''-->'')) \<longleftrightarrow> chained t"
  unfolding js_match_g_def chained_def by (rule two_matches) simp

lemma ws_not_arrow: "is_ws c \<Longrightarrow> c \<noteq> CHR ''-'' \<and> c \<noteq> CHR ''>''"
  by (auto simp: is_ws_def)

lemma chained_inside:
  assumes "p @ c @ q = s" "\<exists>u y v. s = u @ (''-->'' @ y @ ''-->'') @ v \<and> nl \<notin> set y"
    and "CHR ''-'' \<notin> set p" "CHR ''>'' \<notin> set q"
  shows "\<exists>u y v. c = u @ (''-->'' @ y @ ''-->'') @ v \<and> nl \<notin> set y"
proof -
  from assms(2) obtain u y v where s: "s = u @ (''-->'' @ y @ ''-->'') @ v" and y: "nl \<notin> set y" by blast
  have "p @ c @ q = u @ (''-->'' @ y @ ''-->'') @ v" using assms(1) s by simp
  moreover have "''-->'' @ y @ ''-->'' \<noteq> []" by simp
  moreover have "hd (''-->'' @ y @ ''-->'') \<notin> set p" using assms(3) by simp
  moreover have "last (''-->'' @ y @ ''-->'') \<notin> set q" using assms(4) by simp
  ultimately have "\<exists>u' v'. c = u' @ (''-->'' @ y @ ''-->'') @ v'" by (rule piece_inside)
  then show ?thesis using y by blast
qed

lemma chained_trim: "chained (trim l) \<longleftrightarrow> chained l"
proof
  obtain p q where pq: "p @ trim l @ q = l" "\<forall>c\<in>set p. is_ws c" "\<forall>c\<in>set q. is_ws c"
    using trim_decomp[of l] by metis
  {
    assume "chained (trim l)"
    then obtain x y z where "trim l = x @ ''-->'' @ y @ ''-->'' @ z" unfolding chained_def by blast
    then have "l = (p @ x) @ ''-->'' @ y @ ''-->'' @ (z @ q)" using pq(1) by auto
    then show "chained l" unfolding chained_def by blast
  }
  {
    assume "chained l"
    then obtain x y z where l: "l = x @ ''-->'' @ y @ ''-->'' @ z" unfolding chained_def by blast
    have "p @ trim l @ q = x @ (''-->'' @ y @ ''-->'') @ z" using pq(1) l by simp
    moreover have "''-->'' @ y @ ''-->'' \<noteq> []" by simp
    moreover have "hd (''-->'' @ y @ ''-->'') \<notin> set p" using pq(2) ws_not_arrow by auto
    moreover have "last (''-->'' @ y @ ''-->'') \<notin> set q" using pq(3) ws_not_arrow by auto
    ultimately have "\<exists>u' v'. trim l = u' @ (''-->'' @ y @ ''-->'') @ v'" by (rule piece_inside)
    then show "chained (trim l)" unfolding chained_def by auto
  }
qed

lemma js_remove_fenceOpenMermaid:
  assumes "startsWith t ''```mermaid''"
  shows "\<exists>F. F @ js_remove t fenceOpenMermaid = t \<and> (F = ''```mermaid'' \<or> F = ''```mermaid'' @ [nl])"
proof -
  obtain r where t: "t = ''```mermaid'' @ r"
    using assms unfolding startsWith_def by (metis append_take_drop_id)
  show ?thesis
  proof (cases r)
    case Nil
    have "js_remove t fenceOpenMermaid = []"
      unfolding t Nil by (simp add: js_remove_def js_match_def fenceOpenMermaid_def Opt_def)
    then show ?thesis using t Nil by simp
  next
    case (Cons y ys)
    show ?thesis
    proof (cases "y = nl")
      case True
      have "js_remove t fenceOpenMermaid = ys"
        unfolding t Cons using True by (simp add: js_remove_def js_match_def fenceOpenMermaid_def Opt_def)
      then show ?thesis using t Cons True by simp
    next
      case False
      have "js_remove t fenceOpenMermaid = y # ys"
        unfolding t Cons using False by (simp add: js_remove_def js_match_def fenceOpenMermaid_def Opt_def)
      then show ?thesis using t Cons by simp
    qed
  qed
qed

text \<open>What the validator removes from a text holds neither a hyphen nor an angle bracket.\<close>

lemma validate_clean_frame:
  "\<exists>P Q. P @ validate_clean src @ Q = src \<and> CHR ''-'' \<notin> set P \<and> CHR ''>'' \<notin> set Q"
proof -
  obtain p q where pq: "p @ trim src @ q = src" "\<forall>c\<in>set p. is_ws c" "\<forall>c\<in>set q. is_ws c"
    using trim_decomp[of src] by metis
  have p: "CHR ''-'' \<notin> set p" and q: "CHR ''>'' \<notin> set q" using pq(2,3) ws_not_arrow by auto
  show ?thesis
  proof (cases "startsWith (trim src) ''```mermaid''")
    case False
    then have "validate_clean src = trim src" by (simp add: validate_clean_def)
    then show ?thesis using pq(1) p q by metis
  next
    case True
    let ?c1 = "js_remove (trim src) fenceOpenMermaid"
    have vc: "validate_clean src = js_remove ?c1 fenceClose"
      using True by (simp add: validate_clean_def)
    obtain F where F: "F @ ?c1 = trim src" "F = ''```mermaid'' \<or> F = ''```mermaid'' @ [nl]"
      using js_remove_fenceOpenMermaid[OF True] by blast
    have Fd: "CHR ''-'' \<notin> set F" using F(2) by (auto simp: nl_def)
    obtain T where T: "js_remove ?c1 fenceClose @ T = ?c1" "T = [] \<or> T = ''```'' \<or> T = nl # ''```''"
      using js_remove_fenceClose[of ?c1] by (metis append_Nil2)
    have Td: "CHR ''>'' \<notin> set T" using T(2) by (auto simp: nl_def)
    have "(p @ F) @ validate_clean src @ (T @ q) = src"
      using pq(1) F(1) T(1) vc by (metis append_assoc)
    moreover have "CHR ''-'' \<notin> set (p @ F)" using p Fd by simp
    moreover have "CHR ''>'' \<notin> set (T @ q)" using q Td by simp
    ultimately show ?thesis by blast
  qed
qed

lemma chained_line_clean:
  assumes "l \<in> set (split_nl src)" "chained l"
  shows "\<exists>l'\<in>set (split_nl (validate_clean src)). chained l'"
proof -
  obtain u v where uv: "src = u @ l @ v" "nl \<notin> set l" using line_context[OF assms(1)] by blast
  obtain x y z where l: "l = x @ ''-->'' @ y @ ''-->'' @ z" using assms(2) unfolding chained_def by blast
  have ynl: "nl \<notin> set y" using uv(2) l by simp
  have "src = (u @ x) @ (''-->'' @ y @ ''-->'') @ (z @ v)" using uv(1) l by simp
  then have ex: "\<exists>u y v. src = u @ (''-->'' @ y @ ''-->'') @ v \<and> nl \<notin> set y" using ynl by blast
  obtain P Q where PQ: "P @ validate_clean src @ Q = src" "CHR ''-'' \<notin> set P" "CHR ''>'' \<notin> set Q"
    using validate_clean_frame by blast
  obtain u' y' v' where c: "validate_clean src = u' @ (''-->'' @ y' @ ''-->'') @ v'" "nl \<notin> set y'"
    using chained_inside[OF PQ(1) ex PQ(2,3)] by blast
  have "nl \<notin> set (''-->'' @ y' @ ''-->'')" using c(2) by (simp add: nl_def)
  then obtain l' where "l' \<in> set (split_nl (u' @ (''-->'' @ y' @ ''-->'') @ v'))"
    "\<exists>a b. l' = a @ (''-->'' @ y' @ ''-->'') @ b"
    using piece_line by blast
  then show ?thesis unfolding c(1) chained_def by auto
qed

text \<open>The result of the validator, with the loop over the lines in closed form.\<close>

lemma validateMermaid_findings:
  "issues (validateMermaid src) =
     (if \<not> list_ex (startsWith (toLowerCase (trim (hd (split_nl (validate_clean src)))))) validTypes
      then [\<lparr>fline = 1, fissue = ''Missing or invalid diagram type declaration'',
             suggestion = ''Start with flowchart TD, sequenceDiagram, etc.''\<rparr>]
      else []) @
     concat (map (\<lambda>il. if chained (trim (snd il)) then [chained_issue (fst il)] else [])
               (zip [0..<length (split_nl (validate_clean src))] (split_nl (validate_clean src))))"
  "warnings (validateMermaid src) =
     (if (startsWith (toLowerCase (trim (hd (split_nl (validate_clean src))))) ''flowchart''
          \<or> startsWith (toLowerCase (trim (hd (split_nl (validate_clean src))))) ''graph'')
         \<and> \<not> js_test directionPattern (toLowerCase (trim (hd (split_nl (validate_clean src)))))
      then [\<lparr>fline = 1, fissue = ''Direction not specified'',
             suggestion = ''Add direction: TD, LR, RL, or BT''\<rparr>]
      else []) @
     concat (map (\<lambda>il. if startsWith (trim (snd il)) ''classDef'' \<or> startsWith (trim (snd il)) ''style ''
                        then [styling_warning (fst il)] else [])
               (zip [0..<length (split_nl (validate_clean src))] (split_nl (validate_clean src))))"
  "isValid (validateMermaid src) \<longleftrightarrow> issues (validateMermaid src) = []"
  "compatibility (validateMermaid src) =
     (if issues (validateMermaid src) = []
      then (if warnings (validateMermaid src) = [] then ''high'' else ''medium'')
      else ''low'')"
proof -
  obtain l0 ls where sp: "split_nl (validate_clean src) = l0 # ls"
    using split_nl_ne[of "validate_clean src"] by (cases "split_nl (validate_clean src)") auto
  show "issues (validateMermaid src) =
     (if \<not> list_ex (startsWith (toLowerCase (trim (hd (split_nl (validate_clean src)))))) validTypes
      then [\<lparr>fline = 1, fissue = ''Missing or invalid diagram type declaration'',
             suggestion = ''Start with flowchart TD, sequenceDiagram, etc.''\<rparr>]
      else []) @
     concat (map (\<lambda>il. if chained (trim (snd il)) then [chained_issue (fst il)] else [])
               (zip [0..<length (split_nl (validate_clean src))] (split_nl (validate_clean src))))"
    unfolding validateMermaid_def Let_def fold_validate_eq arrowCount_chained sp
    by (simp del: upt_Suc)
  show "warnings (validateMermaid src) =
     (if (startsWith (toLowerCase (trim (hd (split_nl (validate_clean src))))) ''flowchart''
          \<or> startsWith (toLowerCase (trim (hd (split_nl (validate_clean src))))) ''graph'')
         \<and> \<not> js_test directionPattern (toLowerCase (trim (hd (split_nl (validate_clean src)))))
      then [\<lparr>fline = 1, fissue = ''Direction not specified'',
             suggestion = ''Add direction: TD, LR, RL, or BT''\<rparr>]
      else []) @
     concat (map (\<lambda>il. if startsWith (trim (snd il)) ''classDef'' \<or> startsWith (trim (snd il)) ''style ''
                        then [styling_warning (fst il)] else [])
               (zip [0..<length (split_nl (validate_clean src))] (split_nl (validate_clean src))))"
    unfolding validateMermaid_def Let_def fold_validate_eq sp
    by (simp del: upt_Suc)
  show "isValid (validateMermaid src) \<longleftrightarrow> issues (validateMermaid src) = []"
    by (simp add: validateMermaid_def Let_def)
  show "compatibility (validateMermaid src) =
     (if issues (validateMermaid src) = []
      then (if warnings (validateMermaid src) = [] then ''high'' else ''medium'')
      else ''low'')"
    by (simp add: validateMermaid_def Let_def)
qed

lemma chained_line_issue:
  assumes "i < length (split_nl (validate_clean src))"
    and "chained (split_nl (validate_clean src) ! i)"
  shows "chained_issue i \<in> set (issues (validateMermaid src))"
proof -
  let ?ls = "split_nl (validate_clean src)"
  have "(i, ?ls ! i) \<in> set (zip [0..<length ?ls] ?ls)"
    using assms(1) by (auto simp: in_set_zip intro!: exI[of _ i])
  moreover have "chained (trim (?ls ! i))" using assms(2) by (simp add: chained_trim)
  ultimately have "chained_issue i \<in> set (concat (map (\<lambda>il. if chained (trim (snd il)) then [chained_issue (fst il)] else [])
               (zip [0..<length ?ls] ?ls)))"
    by (force simp del: upt_Suc)
  then show ?thesis unfolding validateMermaid_findings(1) by simp
qed

lemma lower_backtick: "lower_char c = CHR ''f'' \<Longrightarrow> c \<noteq> CHR 0x60"
  by (auto simp: lower_char_def)

lemma flowchart_lr_unfenced:
  assumes "toLowerCase (trim (hd (split_nl src))) = ''flowchart lr''"
  shows "validate_clean src = trim src"
    and "toLowerCase (trim (hd (split_nl (validate_clean src)))) = ''flowchart lr''"
proof -
  let ?L = "trim (hd (split_nl src))"
  have ne: "?L \<noteq> []" using assms by (auto simp: toLowerCase_def)
  then obtain c cs where L: "?L = c # cs" by (cases ?L) auto
  have "lower_char c = CHR ''f''" using assms unfolding L by (simp add: toLowerCase_def)
  then have c: "c \<noteq> CHR 0x60" by (rule lower_backtick)
  obtain r where r: "trim src = ?L @ r" using first_line_trim(1)[OF ne] by blast
  have "\<not> startsWith (trim src) ''```mermaid''"
    unfolding r L using c by (simp add: startsWith_def)
  then show vc: "validate_clean src = trim src" by (simp add: validate_clean_def)
  show "toLowerCase (trim (hd (split_nl (validate_clean src)))) = ''flowchart lr''"
    unfolding vc first_line_trim(2)[OF ne] by (rule assms)
qed

lemma trim_framed:
  assumes "\<forall>c\<in>set a. is_ws c" "\<forall>c\<in>set b. is_ws c"
  shows "trim (a @ l @ b) = trim l"
proof -
  have "trim (a @ (l @ b)) = trim (l @ b)" using assms(1) by (rule trim_ws_left)
  also have "\<dots> = trim l" using assms(2) by (rule trim_ws_right)
  finally show ?thesis .
qed

lemma clean_flowchart_lr:
  assumes fl: "toLowerCase (trim (hd (split_nl src))) = ''flowchart lr''"
    and st: "\<forall>l\<in>set (split_nl src). \<not> startsWith (trim l) ''classDef'' \<and> \<not> startsWith (trim l) ''style ''"
    and ch: "\<forall>l\<in>set (split_nl src). \<not> chained l"
  shows "issues (validateMermaid src) = []" "warnings (validateMermaid src) = []"
proof -
  let ?ls = "split_nl (validate_clean src)"
  have vc: "validate_clean src = trim src" using fl by (rule flowchart_lr_unfenced(1))
  have f2: "toLowerCase (trim (hd ?ls)) = ''flowchart lr''" using fl by (rule flowchart_lr_unfenced(2))
  have ok: "\<not> chained (trim l') \<and> \<not> startsWith (trim l') ''classDef'' \<and> \<not> startsWith (trim l') ''style ''"
    if "l' \<in> set ?ls" for l'
  proof -
    from that have "l' \<in> set (split_nl (trim src))" by (simp only: vc)
    then obtain l a b where l: "l \<in> set (split_nl src)" "l = a @ l' @ b"
      "\<forall>c\<in>set a. is_ws c" "\<forall>c\<in>set b. is_ws c"
      using trimmed_lines by blast
    have t: "trim l = trim l'" unfolding l(2) using l(3,4) by (rule trim_framed)
    have "\<not> chained (trim l)" using ch l(1) by (simp add: chained_trim)
    then show ?thesis using st l(1) t by auto
  qed
  have vt: "list_ex (startsWith ''flowchart lr'') validTypes" by code_simp
  have dp: "js_test directionPattern ''flowchart lr''" by code_simp
  have 1: "concat (map (\<lambda>il. if chained (trim (snd il)) then [chained_issue (fst il)] else [])
               (zip [0..<length ?ls] ?ls)) = []"
    using ok by (auto simp del: upt_Suc dest: set_zip_rightD)
  have 2: "concat (map (\<lambda>il. if startsWith (trim (snd il)) ''classDef'' \<or> startsWith (trim (snd il)) ''style ''
                        then [styling_warning (fst il)] else [])
               (zip [0..<length ?ls] ?ls)) = []"
    using ok by (auto simp del: upt_Suc dest: set_zip_rightD)
  show "issues (validateMermaid src) = []"
    unfolding validateMermaid_findings(1) 1 f2 using vt by simp
  show "warnings (validateMermaid src) = []"
    unfolding validateMermaid_findings(2) 2 f2 using dp by simp
qed

text \<open>
  Claim C9. When a line of the text holds two arrows \<open>-->\<close>, some line of what the
  validator reads holds them too, each such line is reported as chained arrows under
  its line number, and the text is not valid, with compatibility low. When the first
  line, trimmed and in lower case, is \<open>flowchart lr\<close> and no line is a styling
  directive or holds two arrows, there is no issue and no warning, the text is valid
  and the compatibility is high.
\<close>

theorem chained_arrows:
  "((\<exists>l\<in>set (split_nl src). chained l) \<longrightarrow>
      (\<exists>i<length (split_nl (validate_clean src)). chained (split_nl (validate_clean src) ! i))
      \<and> (\<forall>i<length (split_nl (validate_clean src)).
            chained (split_nl (validate_clean src) ! i) \<longrightarrow>
              chained_issue i \<in> set (issues (validateMermaid src)))
      \<and> \<not> isValid (validateMermaid src)
      \<and> compatibility (validateMermaid src) = ''low'')
   \<and> (toLowerCase (trim (hd (split_nl src))) = ''flowchart lr''
        \<and> (\<forall>l\<in>set (split_nl src).
              \<not> startsWith (trim l) ''classDef'' \<and> \<not> startsWith (trim l) ''style '' \<and> \<not> chained l) \<longrightarrow>
      issues (validateMermaid src) = [] \<and> warnings (validateMermaid src) = []
      \<and> isValid (validateMermaid src)
      \<and> compatibility (validateMermaid src) = ''high'')"
proof (intro conjI impI)
  assume "\<exists>l\<in>set (split_nl src). chained l"
  then obtain l' where "l' \<in> set (split_nl (validate_clean src))" "chained l'"
    using chained_line_clean by blast
  then obtain i where i: "i < length (split_nl (validate_clean src))"
    "chained (split_nl (validate_clean src) ! i)"
    by (auto simp: in_set_conv_nth)
  then show "\<exists>i<length (split_nl (validate_clean src)). chained (split_nl (validate_clean src) ! i)"
    by blast
  show all: "\<forall>i<length (split_nl (validate_clean src)).
            chained (split_nl (validate_clean src) ! i) \<longrightarrow>
              chained_issue i \<in> set (issues (validateMermaid src))"
    using chained_line_issue by blast
  have ne: "issues (validateMermaid src) \<noteq> []" using all i by auto
  show "\<not> isValid (validateMermaid src)" using ne by (simp add: validateMermaid_findings(3))
  show "compatibility (validateMermaid src) = ''low''"
    using ne by (simp add: validateMermaid_findings(4))
next
  assume a: "toLowerCase (trim (hd (split_nl src))) = ''flowchart lr''
        \<and> (\<forall>l\<in>set (split_nl src).
              \<not> startsWith (trim l) ''classDef'' \<and> \<not> startsWith (trim l) ''style '' \<and> \<not> chained l)"
  have i: "issues (validateMermaid src) = []" and w: "warnings (validateMermaid src) = []"
    using clean_flowchart_lr[of src] a by auto
  show "issues (validateMermaid src) = []" by (rule i)
  show "warnings (validateMermaid src) = []" by (rule w)
  show "isValid (validateMermaid src)" using i by (simp add: validateMermaid_findings(3))
  show "compatibility (validateMermaid src) = ''high''"
    using i w by (simp add: validateMermaid_findings(4))
qed

text \<open>
  The theorem at \<open>flowchart TD\<close> followed by the line \<open>A --> B --> C\<close>, reported on
  line 2, and at \<open>flowchart LR\<close> followed by the line \<open>A --> B\<close>.
\<close>

theorem chained_arrows_witness:
  "chained_issue 1 \<in> set (issues (validateMermaid (''flowchart TD'' @ nl # ''A --> B --> C'')))
   \<and> \<not> isValid (validateMermaid (''flowchart TD'' @ nl # ''A --> B --> C''))
   \<and> compatibility (validateMermaid (''flowchart TD'' @ nl # ''A --> B --> C'')) = ''low''
   \<and> isValid (validateMermaid (''flowchart LR'' @ nl # ''A --> B''))
   \<and> compatibility (validateMermaid (''flowchart LR'' @ nl # ''A --> B'')) = ''high''"
proof -
  let ?s1 = "''flowchart TD'' @ nl # ''A --> B --> C''" and ?s2 = "''flowchart LR'' @ nl # ''A --> B''"
  have sp1: "split_nl ?s1 = [''flowchart TD'', ''A --> B --> C'']" by code_simp
  have sp2: "split_nl ?s2 = [''flowchart LR'', ''A --> B'']" by code_simp
  have vc1: "split_nl (validate_clean ?s1) = [''flowchart TD'', ''A --> B --> C'']" by code_simp
  have "''A --> B --> C'' = ''A '' @ ''-->'' @ '' B '' @ ''-->'' @ '' C''" by simp
  then have c: "chained ''A --> B --> C''" unfolding chained_def by blast
  have h1: "\<exists>l\<in>set (split_nl ?s1). chained l" unfolding sp1 using c by simp
  have n1: "\<not> chained ''flowchart LR''"
    unfolding arrowCount_chained[symmetric] by code_simp
  have n2: "\<not> chained ''A --> B''"
    unfolding arrowCount_chained[symmetric] by code_simp
  have h2: "toLowerCase (trim (hd (split_nl ?s2))) = ''flowchart lr''" by code_simp
  have s1: "\<not> startsWith (trim ''flowchart LR'') ''classDef'' \<and> \<not> startsWith (trim ''flowchart LR'') ''style ''"
    by code_simp
  have s2: "\<not> startsWith (trim ''A --> B'') ''classDef'' \<and> \<not> startsWith (trim ''A --> B'') ''style ''"
    by code_simp
  have h3: "\<forall>l\<in>set (split_nl ?s2).
              \<not> startsWith (trim l) ''classDef'' \<and> \<not> startsWith (trim l) ''style '' \<and> \<not> chained l"
    unfolding sp2 using n1 n2 s1 s2 by simp
  have a: "chained (split_nl (validate_clean ?s1) ! 1)" unfolding vc1 using c by simp
  have b: "(1::nat) < length (split_nl (validate_clean ?s1))" unfolding vc1 by simp
  from chained_arrows[of ?s1] h1 a b
  have p1: "chained_issue 1 \<in> set (issues (validateMermaid ?s1))
     \<and> \<not> isValid (validateMermaid ?s1) \<and> compatibility (validateMermaid ?s1) = ''low''"
    by blast
  from chained_arrows[of ?s2] h2 h3
  have p2: "isValid (validateMermaid ?s2) \<and> compatibility (validateMermaid ?s2) = ''high''"
    by blast
  show ?thesis using p1 p2 by blast
qed

section \<open>Termination of the level assignment\<close>

lemma forEach_opt_inv:
  assumes "\<And>x s. x \<in> set xs \<Longrightarrow> P s \<Longrightarrow> \<exists>s'. g x s = Some s' \<and> P s'"
  shows "P s \<Longrightarrow> \<exists>s'. forEach_opt g xs s = Some s' \<and> P s'"
  using assms
proof (induction xs arbitrary: s)
  case Nil
  then show ?case by simp
next
  case (Cons x xs)
  obtain s1 where s1: "g x s = Some s1" "P s1" using Cons.prems(2)[of x s] Cons.prems(1) by auto
  have "\<exists>s'. forEach_opt g xs s1 = Some s' \<and> P s'"
    using Cons.IH[OF s1(2)] Cons.prems(2) by simp
  then show ?case using s1(1) by simp
qed

text \<open>
  A call returns when the fuel exceeds the number of ids with an outgoing edge that
  are not on the stack; it leaves the stack as it found it, gives a level to exactly
  the visited ids, and visits only what can be reached.
\<close>

lemma assignLevels_returns:
  assumes fin: "finite K" and K: "\<And>k. adj out k \<noteq> [] \<Longrightarrow> k \<in> K"
    and cl: "\<And>a b. a \<in> R \<Longrightarrow> b \<in> set (adj out a) \<Longrightarrow> b \<in> R"
  shows "card (K - inStack st) < f \<Longrightarrow> dom (nodeLevel st) = visited st \<Longrightarrow> visited st \<subseteq> R \<Longrightarrow> i \<in> R \<Longrightarrow>
     \<exists>st'. assignLevels f out i lv st = Some st' \<and> inStack st' = inStack st
            \<and> dom (nodeLevel st') = visited st' \<and> visited st' \<subseteq> R"
proof (induction f arbitrary: i lv st)
  case 0
  then show ?case by simp
next
  case (Suc f)
  show ?case
  proof (cases "i \<in> inStack st \<or> (i \<in> visited st \<and> \<not> (case nodeLevel st i of None \<Rightarrow> False | Some l \<Rightarrow> lv > l))")
    case True
    then have "assignLevels (Suc f) out i lv st = Some st" by auto
    then show ?thesis using Suc.prems by simp
  next
    case False
    define st1 where "st1 = (if i \<in> visited st then st\<lparr>nodeLevel := (nodeLevel st)(i \<mapsto> lv)\<rparr> else st)"
    define st2 where "st2 = st1\<lparr>visited := insert i (visited st1), inStack := insert i (inStack st1),
        nodeLevel := (nodeLevel st1)(i \<mapsto> max (case nodeLevel st1 i of None \<Rightarrow> 0 | Some l \<Rightarrow> l) lv)\<rparr>"
    have eq: "assignLevels (Suc f) out i lv st =
        (case forEach_opt (\<lambda>c s. assignLevels f out c (lv + 1) s) (adj out i) st2 of
           None \<Rightarrow> None
         | Some st3 \<Rightarrow> Some (st3\<lparr>inStack := inStack st3 - {i}\<rparr>))"
      using False unfolding st2_def st1_def by (auto simp add: Let_def split: option.splits)
    have nin: "i \<notin> inStack st" using False by simp
    have s2: "inStack st2 = insert i (inStack st) \<and> dom (nodeLevel st2) = visited st2 \<and> visited st2 \<subseteq> R"
      using Suc.prems(2,3,4) unfolding st2_def st1_def by auto
    have step: "\<exists>s'. assignLevels f out c (lv + 1) s = Some s'
                  \<and> (inStack s' = insert i (inStack st) \<and> dom (nodeLevel s') = visited s' \<and> visited s' \<subseteq> R)"
      if c: "c \<in> set (adj out i)"
        and s: "inStack s = insert i (inStack st) \<and> dom (nodeLevel s) = visited s \<and> visited s \<subseteq> R" for c s
    proof -
      have "adj out i \<noteq> []" using c by auto
      then have iK: "i \<in> K" by (rule K)
      have "K - insert i (inStack st) \<subset> K - inStack st" using iK nin by auto
      moreover have "finite (K - inStack st)" using fin by simp
      ultimately have "card (K - insert i (inStack st)) < card (K - inStack st)"
        by (rule psubset_card_mono[rotated])
      then have "card (K - inStack s) < f" using Suc.prems(1) s by simp
      moreover have "c \<in> R" using cl[OF Suc.prems(4) c] .
      ultimately show ?thesis using Suc.IH[of s c "lv + 1"] s by auto
    qed
    obtain st3 where st3: "forEach_opt (\<lambda>c s. assignLevels f out c (lv + 1) s) (adj out i) st2 = Some st3"
      "inStack st3 = insert i (inStack st) \<and> dom (nodeLevel st3) = visited st3 \<and> visited st3 \<subseteq> R"
      using forEach_opt_inv[of "adj out i"
          "\<lambda>s. inStack s = insert i (inStack st) \<and> dom (nodeLevel s) = visited s \<and> visited s \<subseteq> R"
          "\<lambda>c s. assignLevels f out c (lv + 1) s" st2, OF step s2]
      by blast
    show ?thesis unfolding eq st3(1) using st3(2) nin by simp
  qed
qed

lemma fill_levels:
  "fold (\<lambda>n m. if m (nid n) = None then m(nid n \<mapsto> 0) else m) nodes m0 k =
     (if m0 k = None \<and> k \<in> nid ` set nodes then Some 0 else m0 k)"
  by (induction nodes arbitrary: m0) auto

lemma rootsOf_nodes: "set (rootsOf nodes edges) \<subseteq> set nodes"
  by (cases nodes) (auto simp: rootsOf_def Let_def)

text \<open>
  Claim C8. With a fuel above the number of nodes the traversal returns, for every
  list of nodes and every list of edges, cycles or not. Then every node has a level,
  the levels the traversal has set are kept, the visited ids are among those that can
  be reached from a root, and a node that was not visited, in particular one that
  cannot be reached from a root, has level 0.
\<close>

theorem levels_defined:
  assumes "length nodes < fuel"
  shows "\<exists>st lv. calculateLevels fuel nodes edges = Some (st, lv)
           \<and> (\<forall>n\<in>set nodes. \<exists>l. lv (nid n) = Some l)
           \<and> (\<forall>k l. nodeLevel st k = Some l \<longrightarrow> lv k = Some l)
           \<and> visited st \<subseteq> reached nodes edges
           \<and> (\<forall>n\<in>set nodes. nid n \<notin> visited st \<longrightarrow> lv (nid n) = Some 0)
           \<and> (\<forall>n\<in>set nodes. nid n \<notin> reached nodes edges \<longrightarrow> lv (nid n) = Some 0)"
proof -
  let ?out = "outEdgesOf nodes edges" and ?K = "nid ` set nodes" and ?R = "reached nodes edges"
  let ?P = "\<lambda>s. inStack s = {} \<and> dom (nodeLevel s) = visited s \<and> visited s \<subseteq> ?R"
  let ?s0 = "\<lparr>visited = {}, inStack = {}, nodeLevel = Map.empty\<rparr>"
  have fin: "finite ?K" by simp
  have K: "k \<in> ?K" if "adj ?out k \<noteq> []" for k
    using that by (simp add: adj_outEdgesOf split: if_splits)
  have cl: "b \<in> ?R" if "a \<in> ?R" "b \<in> set (adj ?out a)" for a b
    using that unfolding reached_def by (auto intro: rtrancl_into_rtrancl)
  have "card ?K \<le> card (set nodes)" by (rule card_image_le) simp
  also have "\<dots> \<le> length nodes" by (rule card_length)
  finally have cK: "card ?K < fuel" using assms by simp
  have step: "\<exists>s'. assignLevels fuel ?out (nid r) 0 s = Some s' \<and> ?P s'"
    if r: "r \<in> set (rootsOf nodes edges)" and s: "?P s" for r s
  proof -
    have "nid r \<in> ?R" using r unfolding reached_def by auto
    moreover have "card (?K - inStack s) < fuel" using cK s by simp
    ultimately show ?thesis
      using assignLevels_returns[of ?K ?out ?R s fuel "nid r" 0, OF fin K cl] s by auto
  qed
  have "?P ?s0" by simp
  from forEach_opt_inv[of "rootsOf nodes edges" ?P
      "\<lambda>root s. assignLevels fuel ?out (nid root) 0 s" ?s0, OF step this]
  obtain st where st: "forEach_opt (\<lambda>root s. assignLevels fuel ?out (nid root) 0 s)
       (rootsOf nodes edges) ?s0 = Some st" "?P st"
    by blast
  let ?lv = "fold (\<lambda>n m. if m (nid n) = None then m(nid n \<mapsto> 0) else m) nodes (nodeLevel st)"
  have c: "calculateLevels fuel nodes edges = Some (st, ?lv)"
    unfolding calculateLevels_def st(1) by simp
  have none: "nodeLevel st k = None" if "k \<notin> visited st" for k
    using st(2) that by (metis domIff)
  have 1: "\<forall>n\<in>set nodes. \<exists>l. ?lv (nid n) = Some l" by (auto simp: fill_levels)
  have 2: "\<forall>k l. nodeLevel st k = Some l \<longrightarrow> ?lv k = Some l" by (simp add: fill_levels)
  have 3: "\<forall>n\<in>set nodes. nid n \<notin> visited st \<longrightarrow> ?lv (nid n) = Some 0"
    using none by (simp add: fill_levels)
  have 4: "\<forall>n\<in>set nodes. nid n \<notin> ?R \<longrightarrow> ?lv (nid n) = Some 0"
    using 3 st(2) by blast
  show ?thesis using c 1 2 3 4 st(2) by blast
qed

text \<open>
  The theorem at five nodes with the edges A to B, B to C, C to B, A to C, D to E and
  E to D: a cycle below the only root A, and a cycle that no root leads to.
\<close>

theorem levels_defined_witness:
  "\<exists>st lv. calculateLevels 6 (map default_node [''A'', ''B'', ''C'', ''D'', ''E''])
       (map (\<lambda>(a, b). \<lparr>eid = a @ b, source = a, target = b, elabel = [], arrowType = None\<rparr>)
          [(''A'', ''B''), (''B'', ''C''), (''C'', ''B''), (''A'', ''C''), (''D'', ''E''), (''E'', ''D'')])
       = Some (st, lv)
     \<and> map lv [''A'', ''B'', ''C'', ''D'', ''E''] = [Some 0, Some 1, Some 2, Some 0, Some 0]
     \<and> ''D'' \<notin> visited st
     \<and> ''D'' \<notin> reached (map default_node [''A'', ''B'', ''C'', ''D'', ''E''])
       (map (\<lambda>(a, b). \<lparr>eid = a @ b, source = a, target = b, elabel = [], arrowType = None\<rparr>)
          [(''A'', ''B''), (''B'', ''C''), (''C'', ''B''), (''A'', ''C''), (''D'', ''E''), (''E'', ''D'')])"
proof -
  let ?ns = "map default_node [''A'', ''B'', ''C'', ''D'', ''E'']"
  let ?es = "map (\<lambda>(a, b). \<lparr>eid = a @ b, source = a, target = b, elabel = [], arrowType = None\<rparr>)
          [(''A'', ''B''), (''B'', ''C''), (''C'', ''B''), (''A'', ''C''), (''D'', ''E''), (''E'', ''D'')]"
  have "length ?ns < 6" by simp
  from levels_defined[OF this, of ?es]
  obtain st lv where c: "calculateLevels 6 ?ns ?es = Some (st, lv)"
    and r: "visited st \<subseteq> reached ?ns ?es"
    and z: "\<forall>n\<in>set ?ns. nid n \<notin> reached ?ns ?es \<longrightarrow> lv (nid n) = Some 0"
    by blast
  have "map_option (\<lambda>(st, lv). (map lv [''A'', ''B'', ''C'', ''D'', ''E''], ''D'' \<in> visited st))
          (calculateLevels 6 ?ns ?es) = Some ([Some 0, Some 1, Some 2, Some 0, Some 0], False)"
    by code_simp
  then have v: "map lv [''A'', ''B'', ''C'', ''D'', ''E''] = [Some 0, Some 1, Some 2, Some 0, Some 0]"
    "''D'' \<notin> visited st"
    unfolding c by simp_all
  have roots: "map nid (rootsOf ?ns ?es) = [''A'']" by code_simp
  have a: "adj (outEdgesOf ?ns ?es) ''A'' = [''B'', ''C'']"
    "adj (outEdgesOf ?ns ?es) ''B'' = [''C'']" "adj (outEdgesOf ?ns ?es) ''C'' = [''B'']"
    by code_simp+
  have cl: "b \<in> {''A'', ''B'', ''C''}"
    if "(''A'', b) \<in> {(x, y). y \<in> set (adj (outEdgesOf ?ns ?es) x)}\<^sup>*" for b
    using that
  proof (induction rule: rtrancl_induct)
    case base
    then show ?case by simp
  next
    case (step y z)
    then show ?case using a by auto
  qed
  have "nid x = ''A''" if "x \<in> set (rootsOf ?ns ?es)" for x
  proof -
    have "nid x \<in> set (map nid (rootsOf ?ns ?es))" using that by (simp del: map_map)
    then show ?thesis unfolding roots by simp
  qed
  then have d: "''D'' \<notin> reached ?ns ?es"
    unfolding reached_def using cl by fastforce
  show ?thesis
    by (rule exI[of _ st], rule exI[of _ lv]) (intro conjI c v d)
qed

end
